theory Spec2Isabelle
  imports Main "HOL-Library.Word"
begin

unbundle bit_operations_syntax

section \<open>The boot variable store of bootinfo.c\<close>

text \<open>
  A shallow embedding of \<^verbatim>\<open>bootinfo.c\<close>: the two-slot persistent store of boot
  variables on a raw block device. Names follow the C source. The build
  configuration is the default one: \<^verbatim>\<open>EXTENSION_SECTOR_COUNT\<close> is 1023 and
  \<^verbatim>\<open>BOOTINFO_STORAGE_OFFSET_A\<close> is the \<^verbatim>\<open>0x80000\<close> that CMakeLists.txt passes.
  Header integers are little-endian, as on the ARM targets of the tools.
  Memory allocation is taken to succeed.
\<close>

subsection \<open>Constants\<close>

type_synonym byte = "8 word"
type_synonym cstring = "byte list"
type_synonym buffer = "nat \<Rightarrow> byte"

definition DEVICE_MAGIC :: "byte list" where
  "DEVICE_MAGIC = [0x42, 0x4F, 0x4F, 0x54, 0x49, 0x4E, 0x46, 0x4F]"

definition DEVICE_MAGIC_SIZE :: nat where
  "DEVICE_MAGIC_SIZE = 8"

definition DEVINFO_VERSION_CURRENT :: "16 word" where
  "DEVINFO_VERSION_CURRENT = 4"

definition EXTENSION_SECTOR_COUNT :: nat where
  "EXTENSION_SECTOR_COUNT = 1023"

definition DEVINFO_BLOCK_SIZE :: nat where
  "DEVINFO_BLOCK_SIZE = 512"

definition EXTENSION_SIZE :: nat where
  "EXTENSION_SIZE = EXTENSION_SECTOR_COUNT * 512"

text \<open>\<^verbatim>\<open>sizeof(struct device_info)\<close>, packed: 8 + 2 + 1 + 1 + 4 + 1 + 1 + 2.\<close>

definition DEVINFO_HDR_SIZE :: nat where
  "DEVINFO_HDR_SIZE = 20"

definition INFOBUF_SIZE :: nat where
  "INFOBUF_SIZE = DEVINFO_BLOCK_SIZE + EXTENSION_SIZE"

definition VARSPACE_SIZE :: nat where
  "VARSPACE_SIZE = DEVINFO_BLOCK_SIZE + EXTENSION_SIZE - (DEVINFO_HDR_SIZE + 4)"

definition MAX_VALUE_SIZE :: nat where
  "MAX_VALUE_SIZE = VARSPACE_SIZE - 4"

definition FLAG_BOOT_IN_PROGRESS :: byte where
  "FLAG_BOOT_IN_PROGRESS = 1"

definition BOOTINFO_STORAGE_OFFSET_A :: nat where
  "BOOTINFO_STORAGE_OFFSET_A = 0x80000"

definition BOOTINFO_STORAGE_OFFSET_B :: nat where
  "BOOTINFO_STORAGE_OFFSET_B = BOOTINFO_STORAGE_OFFSET_A + DEVINFO_BLOCK_SIZE + EXTENSION_SIZE"

definition devinfo_offset :: "nat \<Rightarrow> nat" where
  "devinfo_offset i = (if i = 0 then BOOTINFO_STORAGE_OFFSET_A else BOOTINFO_STORAGE_OFFSET_B)"

definition extension_offset :: "nat \<Rightarrow> nat" where
  "extension_offset i =
     (if i = 0 then BOOTINFO_STORAGE_OFFSET_A + DEVINFO_BLOCK_SIZE
      else BOOTINFO_STORAGE_OFFSET_B + DEVINFO_BLOCK_SIZE)"

definition BOOTINFO_STORAGE_DEVICE :: string where
  "BOOTINFO_STORAGE_DEVICE = ''/dev/mmcblk0boot1''"

definition BOOTINFO_O_RDONLY :: "32 word" where
  "BOOTINFO_O_RDONLY = 1"

definition BOOTINFO_O_FORCE_INIT :: "32 word" where
  "BOOTINFO_O_FORCE_INIT = 2"

subsection \<open>CRC-32 of zlib\<close>

text \<open>
  \<^verbatim>\<open>crc32(crc, buf, len)\<close> is zlib's, not this repository's: the reflected CRC-32
  with polynomial \<^verbatim>\<open>0xEDB88320\<close>, the running value inverted (\<^verbatim>\<open>^ 0xffffffff\<close>) on
  entry and on exit.
\<close>

definition crc_step :: "32 word \<Rightarrow> 32 word" where
  "crc_step c = (if c AND 1 = 1 then drop_bit 1 c XOR 0xEDB88320 else drop_bit 1 c)"

definition crc_byte :: "32 word \<Rightarrow> byte \<Rightarrow> 32 word" where
  "crc_byte c b = (crc_step ^^ 8) (c XOR ucast b)"

definition crc32 :: "32 word \<Rightarrow> byte list \<Rightarrow> 32 word" where
  "crc32 crc bs = foldl crc_byte (crc XOR 0xFFFFFFFF) bs XOR 0xFFFFFFFF"

subsection \<open>Byte buffers\<close>

text \<open>
  An array of bytes is a function from the index; only indices inside the C array are
  ever read or written. \<open>bytes_of b off n\<close> is the region \<^verbatim>\<open>b[off .. off+n-1]\<close>.
\<close>

definition bytes_of :: "buffer \<Rightarrow> nat \<Rightarrow> nat \<Rightarrow> byte list" where
  "bytes_of b off n = map b [off..<off + n]"

definition zero_buffer :: buffer where
  "zero_buffer = (\<lambda>i. 0)"

text \<open>\<^verbatim>\<open>memcpy(dst + doff, src + soff, n)\<close> between two arrays.\<close>

definition blit :: "buffer \<Rightarrow> nat \<Rightarrow> buffer \<Rightarrow> nat \<Rightarrow> nat \<Rightarrow> buffer" where
  "blit dst doff src soff n =
     (\<lambda>i. if doff \<le> i \<and> i < doff + n then src (soff + (i - doff)) else dst i)"

text \<open>\<^verbatim>\<open>memcpy(dst + off, bs, length bs)\<close> from a byte string.\<close>

definition memcpy :: "buffer \<Rightarrow> nat \<Rightarrow> byte list \<Rightarrow> buffer" where
  "memcpy dst off bs =
     (\<lambda>i. if off \<le> i \<and> i < off + length bs then bs ! (i - off) else dst i)"

definition memset :: "buffer \<Rightarrow> nat \<Rightarrow> byte \<Rightarrow> nat \<Rightarrow> buffer" where
  "memset dst off c n = (\<lambda>i. if off \<le> i \<and> i < off + n then c else dst i)"

definition put16 :: "buffer \<Rightarrow> nat \<Rightarrow> 16 word \<Rightarrow> buffer" where
  "put16 b off v = memcpy b off [ucast v, ucast (drop_bit 8 v)]"

definition put32 :: "buffer \<Rightarrow> nat \<Rightarrow> 32 word \<Rightarrow> buffer" where
  "put32 b off v =
     memcpy b off [ucast v, ucast (drop_bit 8 v), ucast (drop_bit 16 v), ucast (drop_bit 24 v)]"

definition get16 :: "buffer \<Rightarrow> nat \<Rightarrow> 16 word" where
  "get16 b off = ucast (b off) OR push_bit 8 (ucast (b (off + 1)))"

definition get32 :: "buffer \<Rightarrow> nat \<Rightarrow> 32 word" where
  "get32 b off =
     ucast (b off) OR push_bit 8 (ucast (b (off + 1))) OR
     push_bit 16 (ucast (b (off + 2))) OR push_bit 24 (ucast (b (off + 3)))"

subsection \<open>The header\<close>

record device_info =
  magic :: "byte list"
  devinfo_version :: "16 word"
  flags :: byte
  failed_boots :: byte
  crcsum :: "32 word"
  sernum :: byte
  unused :: byte
  ext_sectors :: "16 word"

text \<open>Byte offsets of the fields of the packed \<^verbatim>\<open>struct device_info\<close>.\<close>

definition OFF_MAGIC :: nat where "OFF_MAGIC = 0"
definition OFF_VERSION :: nat where "OFF_VERSION = 8"
definition OFF_FLAGS :: nat where "OFF_FLAGS = 10"
definition OFF_FAILED_BOOTS :: nat where "OFF_FAILED_BOOTS = 11"
definition OFF_CRCSUM :: nat where "OFF_CRCSUM = 12"
definition OFF_SERNUM :: nat where "OFF_SERNUM = 16"
definition OFF_UNUSED :: nat where "OFF_UNUSED = 17"
definition OFF_EXT_SECTORS :: nat where "OFF_EXT_SECTORS = 18"

text \<open>A \<^verbatim>\<open>struct device_info *\<close> cast of a buffer, read field by field.\<close>

definition info_of :: "buffer \<Rightarrow> device_info" where
  "info_of b =
     \<lparr> magic = bytes_of b OFF_MAGIC DEVICE_MAGIC_SIZE,
       devinfo_version = get16 b OFF_VERSION,
       flags = b OFF_FLAGS,
       failed_boots = b OFF_FAILED_BOOTS,
       crcsum = get32 b OFF_CRCSUM,
       sernum = b OFF_SERNUM,
       unused = b OFF_UNUSED,
       ext_sectors = get16 b OFF_EXT_SECTORS \<rparr>"

definition zero_info :: device_info where
  "zero_info =
     \<lparr> magic = replicate DEVICE_MAGIC_SIZE 0, devinfo_version = 0, flags = 0,
       failed_boots = 0, crcsum = 0, sernum = 0, unused = 0, ext_sectors = 0 \<rparr>"

subsection \<open>The context\<close>

text \<open>
  \<^verbatim>\<open>struct devinfo_context\<close>. The list of \<^verbatim>\<open>struct info_var\<close> is a list of
  (name, value) pairs; a C string is the list of its bytes before the terminating null.
  The C list holds pointers into \<^verbatim>\<open>infobuf[current]\<close> (after \<^verbatim>\<open>parse_vars\<close>), into the
  caller's strings (after \<^verbatim>\<open>bootinfo_bootvar_set\<close>) or into copies (after a
  re-initialization); \<^verbatim>\<open>bootinfo_update\<close> writes the other buffer only, so the strings
  are kept by value here. The scratch fields \<^verbatim>\<open>namebuf\<close> and \<^verbatim>\<open>valuebuf\<close> are never
  used by the code.
\<close>

record devinfo_context =
  fd :: int
  lockfd :: int
  readonly :: bool
  valid :: "nat \<Rightarrow> int"
  current :: int
  curinfo :: device_info
  vars :: "(cstring \<times> cstring) list"
  varsize :: nat
  infobuf :: "nat \<Rightarrow> buffer"
  devinfo_dev :: string

text \<open>What \<^verbatim>\<open>calloc(1, sizeof(struct devinfo_context))\<close> returns.\<close>

definition calloc_context :: devinfo_context where
  "calloc_context =
     \<lparr> fd = 0, lockfd = 0, readonly = False, valid = (\<lambda>i. 0), current = 0,
       curinfo = zero_info, vars = [], varsize = 0, infobuf = (\<lambda>i. zero_buffer),
       devinfo_dev = [] \<rparr>"

datatype errno = EINVAL | EROFS | ENODEV | EIO | ENOENT | ENAMETOOLONG | EMSGSIZE | EUNSET

text \<open>
  A return value of the C functions: \<open>OK\<close> is 0, \<open>ERR e\<close> is -1 with \<^verbatim>\<open>errno\<close> set to
  \<open>e\<close>; \<open>ERR EUNSET\<close> is -1 where the function itself does not set \<^verbatim>\<open>errno\<close>.
\<close>

datatype ret = OK | ERR errno

subsection \<open>The operating system\<close>

datatype lockmode = Unlocked | Shared | Exclusive

text \<open>
  The state outside the process: the bytes of the storage device, the advisory lock the
  process holds on the lockfile, the soft read-only switch of the device in sysfs
  (\<open>None\<close> when the device has none), and a log of the \<^verbatim>\<open>write\<close> calls that reached
  the device, each with its offset, its byte count and the lock held at that moment.
  \<open>script\<close> is the environment's choice of the results of the coming system calls, one
  entry for each call in order; once it is exhausted every call succeeds in full.
\<close>

record sys =
  disk :: buffer
  script :: "int list"
  lock :: lockmode
  wlog :: "(nat \<times> nat \<times> lockmode) list"
  force_ro :: "bool option"

definition syscall :: "int \<Rightarrow> sys \<Rightarrow> int \<times> sys" where
  "syscall dflt s = (case script s of [] \<Rightarrow> (dflt, s) | r # rs \<Rightarrow> (r, s\<lparr>script := rs\<rparr>))"

text \<open>
  \<^verbatim>\<open>write(fd, src + soff, len)\<close> at file position \<open>pos\<close>: -1, or the count of bytes
  transferred, at most \<open>len\<close>.
\<close>

definition dev_write :: "sys \<Rightarrow> nat \<Rightarrow> buffer \<Rightarrow> nat \<Rightarrow> nat \<Rightarrow> int \<times> sys" where
  "dev_write s pos src soff len =
     (case syscall (int len) s of (r, s1) \<Rightarrow>
        if r < 0 then (-1, s1)
        else (int (min (nat r) len),
              s1\<lparr>disk := blit (disk s1) pos src soff (min (nat r) len),
                 wlog := wlog s1 @ [(pos, min (nat r) len, lock s1)]\<rparr>))"

text \<open>\<^verbatim>\<open>read(fd, dst + doff, len)\<close> at file position \<open>pos\<close>.\<close>

definition dev_read :: "sys \<Rightarrow> nat \<Rightarrow> buffer \<Rightarrow> nat \<Rightarrow> nat \<Rightarrow> int \<times> buffer \<times> sys" where
  "dev_read s pos dst doff len =
     (case syscall (int len) s of (r, s1) \<Rightarrow>
        if r < 0 then (-1, dst, s1)
        else (int (min (nat r) len), blit dst doff (disk s1) pos (min (nat r) len), s1))"

text \<open>
  The loop \<^verbatim>\<open>for (n = 0; n < sz; n += cnt) { cnt = write(...); if (cnt < 0) return -1; }\<close>
  of \<^verbatim>\<open>bootinfo_update\<close> and \<^verbatim>\<open>bootinfo_open\<close>, after an \<^verbatim>\<open>lseek\<close> to \<open>off\<close>. The result
  is the final \<open>n\<close>, which is \<open>sz\<close> exactly when no \<^verbatim>\<open>write\<close> failed.
\<close>

function write_loop :: "sys \<Rightarrow> nat \<Rightarrow> buffer \<Rightarrow> nat \<Rightarrow> nat \<Rightarrow> nat \<Rightarrow> nat \<times> sys" where
  "write_loop s off src soff sz n =
     (if n < sz then
        (case dev_write s (off + n) src (soff + n) (sz - n) of (cnt, s1) \<Rightarrow>
           if cnt < 0 then (n, s1) else write_loop s1 off src soff sz (n + nat cnt))
      else (n, s))"
  by pat_completeness auto
termination
  apply (relation "measure (\<lambda>(s, off, src, soff, sz, n). length (script s) + (sz - n))")
   apply simp
  apply (auto simp: dev_write_def syscall_def split: list.splits if_splits)
  done

declare write_loop.simps [simp del]

text \<open>
  The loop \<^verbatim>\<open>for (n = 0; n < sz; n += cnt) { cnt = read(...); if (cnt < 0) break; }\<close>
  of \<^verbatim>\<open>find_bootinfo\<close>.
\<close>

function read_loop :: "sys \<Rightarrow> nat \<Rightarrow> buffer \<Rightarrow> nat \<Rightarrow> nat \<Rightarrow> nat \<Rightarrow> nat \<times> buffer \<times> sys" where
  "read_loop s off dst doff sz n =
     (if n < sz then
        (case dev_read s (off + n) dst (doff + n) (sz - n) of (cnt, dst1, s1) \<Rightarrow>
           if cnt < 0 then (n, dst1, s1) else read_loop s1 off dst1 doff sz (n + nat cnt))
      else (n, dst, s))"
  by pat_completeness auto
termination
  apply (relation "measure (\<lambda>(s, off, dst, doff, sz, n). length (script s) + (sz - n))")
   apply simp
  apply (auto simp: dev_read_def syscall_def split: list.splits if_splits)
  done

declare read_loop.simps [simp del]

subsection \<open>The variable area\<close>

text \<open>
  The two inner loops of \<^verbatim>\<open>parse_vars\<close>, which share one shape:
  \<^verbatim>\<open>for (...; varbytes < remain && *p != '\0'; p++, varbytes++);\<close>
\<close>

function scan :: "buffer \<Rightarrow> nat \<Rightarrow> nat \<Rightarrow> nat \<Rightarrow> nat \<times> nat" where
  "scan b remain p varbytes =
     (if varbytes < remain \<and> b p \<noteq> 0 then scan b remain (p + 1) (varbytes + 1)
      else (p, varbytes))"
  by pat_completeness auto
termination
  by (relation "measure (\<lambda>(b, remain, p, varbytes). remain - varbytes)") auto

declare scan.simps [simp del]

text \<open>
  The outer loop of \<^verbatim>\<open>parse_vars\<close>. \<open>cp\<close> is the offset of the cursor in the buffer. The
  name of a variable is the C string at \<open>cp\<close>, which ends at \<open>endp\<close>, where the first scan
  stopped on a null; its value is the C string at \<open>endp + 1\<close>, which ends at \<open>valp\<close>.
\<close>

function parse_loop ::
  "buffer \<Rightarrow> nat \<Rightarrow> nat \<Rightarrow> (cstring \<times> cstring) list \<Rightarrow> nat \<Rightarrow> (cstring \<times> cstring) list \<times> nat"
where
  "parse_loop b cp remain vs vsize =
     (if remain > 0 \<and> b cp \<noteq> 0 then
        (case scan b remain (cp + 1) 1 of (endp, vb1) \<Rightarrow>
           if vb1 \<ge> remain then (vs, vsize)
           else (case scan b remain (endp + 1) (vb1 + 1) of (valp, vb2) \<Rightarrow>
             if vb2 \<ge> remain then (vs, vsize)
             else parse_loop b (cp + (vb2 + 1)) (remain - (vb2 + 1))
                    (vs @ [(bytes_of b cp (endp - cp), bytes_of b (endp + 1) (valp - (endp + 1)))])
                    (vsize + (vb2 + 1))))
      else (vs, vsize))"
  by pat_completeness auto
termination
  by (relation "measure (\<lambda>(b, cp, remain, vs, vsize). remain)") auto

declare parse_loop.simps [simp del]

definition parse_vars :: "devinfo_context \<Rightarrow> ret \<times> devinfo_context" where
  "parse_vars ctx =
     (if current ctx < 0 then (ERR EUNSET, ctx\<lparr>vars := []\<rparr>)
      else (case parse_loop (infobuf ctx (nat (current ctx))) DEVINFO_HDR_SIZE VARSPACE_SIZE [] 0 of
              (vs, vsize) \<Rightarrow> (OK, ctx\<lparr>vars := vs, varsize := vsize\<rparr>)))"

text \<open>
  The loop of \<^verbatim>\<open>pack_vars\<close> with the test and the terminator that follow it. The loop
  leaves with \<^verbatim>\<open>var != NULL\<close> when \<open>remain\<close> reaches 0 before the end of the list.
\<close>

fun pack_loop :: "(cstring \<times> cstring) list \<Rightarrow> buffer \<Rightarrow> nat \<Rightarrow> nat \<Rightarrow> ret \<times> buffer" where
  "pack_loop [] b cp remain = (if remain = 0 then (ERR EUNSET, b) else (OK, b(cp := 0)))"
| "pack_loop ((name, val) # vs) b cp remain =
     (if remain > 0 then
        (if (length name + 1) + (length val + 1) > remain then (ERR EUNSET, b)
         else pack_loop vs
                (memcpy (memcpy b cp (name @ [0])) (cp + (length name + 1)) (val @ [0]))
                (cp + (length name + 1) + (length val + 1))
                (remain - (length name + 1) - (length val + 1)))
      else (ERR EUNSET, b))"

definition pack_vars :: "devinfo_context \<Rightarrow> int \<Rightarrow> ret \<times> devinfo_context" where
  "pack_vars ctx idx =
     (if idx \<noteq> 0 \<and> idx \<noteq> 1 then (ERR EUNSET, ctx)
      else if vars ctx = [] then (OK, ctx)
      else (case pack_loop (vars ctx) (infobuf ctx (nat idx)) DEVINFO_HDR_SIZE (VARSPACE_SIZE - 1) of
              (r, b) \<Rightarrow> (r, ctx\<lparr>infobuf := (infobuf ctx)(nat idx := b)\<rparr>)))"

subsection \<open>bootinfo\_update\<close>

definition update_index :: "devinfo_context \<Rightarrow> int" where
  "update_index ctx = (if current ctx < 0 \<or> current ctx > 1 then 0 else 1 - current ctx)"

text \<open>The header sector as \<^verbatim>\<open>bootinfo_update\<close> builds it, before the variables are packed.\<close>

definition init_header :: "device_info \<Rightarrow> buffer \<Rightarrow> buffer" where
  "init_header cur b =
     (let b1 = memset b 0 0 DEVINFO_BLOCK_SIZE;
          b2 = memcpy b1 OFF_MAGIC DEVICE_MAGIC;
          b3 = put16 b2 OFF_VERSION DEVINFO_VERSION_CURRENT;
          b4 = b3(OFF_FLAGS := flags cur);
          b5 = b4(OFF_FAILED_BOOTS := failed_boots cur);
          b6 = b5(OFF_SERNUM := sernum cur + 1)
      in put16 b6 OFF_EXT_SECTORS (of_nat EXTENSION_SECTOR_COUNT))"

text \<open>The two checksums, stored in the order of the source.\<close>

definition store_crcs :: "buffer \<Rightarrow> buffer" where
  "store_crcs b =
     (let b1 = put32 b OFF_CRCSUM (crc32 0 (bytes_of b 0 DEVINFO_BLOCK_SIZE))
      in put32 b1 (INFOBUF_SIZE - 4)
           (crc32 0 (bytes_of b1 DEVINFO_BLOCK_SIZE (EXTENSION_SIZE - 4))))"

text \<open>
  \<^verbatim>\<open>lseek\<close> to the header offset of slot \<open>i\<close>, the write loop of the header sector,
  \<^verbatim>\<open>lseek\<close> to the extension offset, the write loop of the extension area. The result is
  \<open>False\<close> as soon as one call fails. \<^verbatim>\<open>bootinfo_update\<close> runs it on the destination
  buffer and \<^verbatim>\<open>bootinfo_open\<close> on a buffer of zeros.
\<close>

definition write_slot :: "sys \<Rightarrow> nat \<Rightarrow> buffer \<Rightarrow> bool \<times> sys" where
  "write_slot s i b =
     (case syscall 0 s of (r1, s1) \<Rightarrow>
        if r1 < 0 then (False, s1)
        else (case write_loop s1 (devinfo_offset i) b 0 DEVINFO_BLOCK_SIZE 0 of (n1, s2) \<Rightarrow>
          if n1 < DEVINFO_BLOCK_SIZE then (False, s2)
          else (case syscall 0 s2 of (r2, s3) \<Rightarrow>
            if r2 < 0 then (False, s3)
            else (case write_loop s3 (extension_offset i) b DEVINFO_BLOCK_SIZE EXTENSION_SIZE 0 of
                    (n2, s4) \<Rightarrow> (\<not> n2 < EXTENSION_SIZE, s4)))))"

definition bootinfo_update ::
  "devinfo_context option \<Rightarrow> sys \<Rightarrow> ret \<times> devinfo_context option \<times> sys"
where
  "bootinfo_update ctxp s =
     (case ctxp of
        None \<Rightarrow> (ERR EINVAL, None, s)
      | Some ctx \<Rightarrow>
          if readonly ctx then (ERR EROFS, Some ctx, s)
          else
            (let idx = update_index ctx;
                 ctx1 = ctx\<lparr>infobuf := (infobuf ctx)
                          (nat idx := init_header (curinfo ctx) (infobuf ctx (nat idx)))\<rparr>
             in case pack_vars ctx1 idx of
                  (ERR e, ctx2) \<Rightarrow> (ERR EUNSET, Some ctx2, s)
                | (OK, ctx2) \<Rightarrow>
                    (let ctx3 = ctx2\<lparr>infobuf := (infobuf ctx2)
                                  (nat idx := store_crcs (infobuf ctx2 (nat idx)))\<rparr>
                     in case write_slot s (nat idx) (infobuf ctx3 (nat idx)) of
                          (False, s1) \<Rightarrow> (ERR EUNSET, Some ctx3, s1)
                        | (True, s1) \<Rightarrow> (OK, Some ctx3, s1))))"

subsection \<open>Opening and closing\<close>

text \<open>
  \<^verbatim>\<open>set_bootdev_writeable_status\<close> of util.c: toggles the soft read-only switch of the
  device when it has one and the switch is not yet as asked; the result says whether it
  changed.
\<close>

definition set_bootdev_writeable_status :: "string \<Rightarrow> bool \<Rightarrow> sys \<Rightarrow> bool \<times> sys" where
  "set_bootdev_writeable_status bootdev make_writeable s =
     (if length bootdev < 6 \<or> length bootdev > 32 then (False, s)
      else (case force_ro s of
              None \<Rightarrow> (False, s)
            | Some ro \<Rightarrow>
                if make_writeable = (\<not> ro) then (False, s)
                else (True, s\<lparr>force_ro := Some (\<not> make_writeable)\<rparr>)))"

definition find_storage_dev :: "sys \<Rightarrow> string option \<times> sys" where
  "find_storage_dev s =
     (case syscall 0 s of (r, s1) \<Rightarrow>
        if r = 0 then (Some BOOTINFO_STORAGE_DEVICE, s1) else (None, s1))"

text \<open>One round of the loop over the two slots in \<^verbatim>\<open>find_bootinfo\<close>.\<close>

definition read_slot :: "nat \<Rightarrow> devinfo_context \<Rightarrow> sys \<Rightarrow> devinfo_context \<times> sys" where
  "read_slot i ctx s =
     (case syscall 0 s of (r1, s1) \<Rightarrow>
        if r1 < 0 then (ctx, s1)
        else (case read_loop s1 (devinfo_offset i) (infobuf ctx i) 0 DEVINFO_BLOCK_SIZE 0 of
          (n1, b1, s2) \<Rightarrow>
            (let ctx1 = ctx\<lparr>infobuf := (infobuf ctx)(i := b1)\<rparr> in
             if n1 < DEVINFO_BLOCK_SIZE then (ctx1, s2)
             else if bytes_of b1 OFF_MAGIC DEVICE_MAGIC_SIZE \<noteq> DEVICE_MAGIC then (ctx1, s2)
             else if get16 b1 OFF_VERSION \<ge> DEVINFO_VERSION_CURRENT then
               (if get16 b1 OFF_EXT_SECTORS \<noteq> of_nat EXTENSION_SECTOR_COUNT then (ctx1, s2)
                else (case syscall 0 s2 of (r2, s3) \<Rightarrow>
                  if r2 < 0 then (ctx1, s3)
                  else (case read_loop s3 (extension_offset i) b1 DEVINFO_BLOCK_SIZE
                               EXTENSION_SIZE 0 of
                    (n2, b2, s4) \<Rightarrow>
                      (let ctx2 = ctx1\<lparr>infobuf := (infobuf ctx1)(i := b2)\<rparr> in
                       if n2 < EXTENSION_SIZE then (ctx2, s4)
                       else if crc32 0 (bytes_of b2 DEVINFO_BLOCK_SIZE (EXTENSION_SIZE - 4))
                                 \<noteq> get32 b2 (INFOBUF_SIZE - 4) then (ctx2, s4)
                       else (ctx2\<lparr>valid := (valid ctx2)(i := 1)\<rparr>, s4)))))
             else (ctx1, s2))))"

text \<open>The choice of the current slot at the end of \<^verbatim>\<open>find_bootinfo\<close>; -1 is no slot.\<close>

definition choose_current :: "devinfo_context \<Rightarrow> int" where
  "choose_current ctx =
     (if \<not> (valid ctx 0 \<noteq> 0 \<or> valid ctx 1 \<noteq> 0) then -1
      else if valid ctx 0 \<noteq> 0 \<and> \<not> valid ctx 1 \<noteq> 0 then 0
      else if \<not> valid ctx 0 \<noteq> 0 \<and> valid ctx 1 \<noteq> 0 then 1
      else
        (let dp1 = info_of (infobuf ctx 1); dp = info_of (infobuf ctx 0) in
         if sernum dp = 255 \<and> sernum dp1 = 0 then 1
         else if sernum dp1 = 255 \<and> sernum dp = 0 then 0
         else if sernum dp1 > sernum dp then 1
         else 0))"

text \<open>
  The system calls of \<^verbatim>\<open>find_bootinfo\<close> in order: \<^verbatim>\<open>open\<close> of the lock directory,
  \<^verbatim>\<open>mkdir\<close> and a second \<^verbatim>\<open>open\<close> when the first failed, \<^verbatim>\<open>openat\<close> of the lockfile
  (which fails on a bad directory descriptor), \<^verbatim>\<open>flock\<close>, \<^verbatim>\<open>open\<close> of the device, and
  the reads of the two slots.
\<close>

definition find_bootinfo ::
  "bool \<Rightarrow> string \<Rightarrow> sys \<Rightarrow> ret \<times> devinfo_context option \<times> sys"
where
  "find_bootinfo ro dev s0 =
     (let ctx0 = calloc_context\<lparr>readonly := ro, devinfo_dev := dev\<rparr> in
      case syscall 3 s0 of (d1, s1) \<Rightarrow>
     (case (if d1 < 0 then
              (case syscall 0 s1 of (m, s2) \<Rightarrow>
                 if m < 0 then
                   (None, if \<not> ro then snd (set_bootdev_writeable_status dev False s2) else s2)
                 else (case syscall 3 s2 of (d2, s3) \<Rightarrow> (Some d2, s3)))
            else (Some d1, s1)) of
        (None, s4) \<Rightarrow> (ERR EUNSET, None, s4)
      | (Some dirfd, s4) \<Rightarrow>
      case (if dirfd < 0 then (-1, s4) else syscall 4 s4) of (lfd, s5) \<Rightarrow>
        if lfd < 0 then (ERR EUNSET, None, s5)
        else
      case syscall 0 s5 of (fl, s6) \<Rightarrow>
        if fl < 0 then (ERR EUNSET, None, s6)
        else
      (let s7 = s6\<lparr>lock := (if ro then Shared else Exclusive)\<rparr>;
           s8 = (if \<not> ro then snd (set_bootdev_writeable_status dev True s7) else s7)
       in
      case syscall 5 s8 of (dfd, s9) \<Rightarrow>
        if dfd < 0 then
          (ERR EUNSET, None,
           (if \<not> ro then snd (set_bootdev_writeable_status dev False s9) else s9)
             \<lparr>lock := Unlocked\<rparr>)
        else
      case read_slot 0 (ctx0\<lparr>lockfd := lfd, fd := dfd\<rparr>) s9 of (ctx1, s10) \<Rightarrow>
      case read_slot 1 ctx1 s10 of (ctx2, s11) \<Rightarrow>
        if \<not> (valid ctx2 0 \<noteq> 0 \<or> valid ctx2 1 \<noteq> 0) then
          (ERR EUNSET, Some (ctx2\<lparr>current := -1, curinfo := zero_info\<rparr>), s11)
        else
          (let ctx3 = ctx2\<lparr>current := choose_current ctx2\<rparr>;
               ctx4 = ctx3\<lparr>curinfo := info_of (infobuf ctx3 (nat (current ctx3)))\<rparr>
           in case parse_vars ctx4 of
                (OK, ctx5) \<Rightarrow> (OK, Some ctx5, s11)
              | (ERR e, ctx5) \<Rightarrow>
                  (OK, Some (ctx5\<lparr>readonly := True\<rparr>),
                   if \<not> readonly ctx5
                   then snd (set_bootdev_writeable_status (devinfo_dev ctx5) False s11)
                   else s11)))))"

definition close_bootinfo :: "devinfo_context option \<Rightarrow> bool \<Rightarrow> sys \<Rightarrow> int \<times> sys" where
  "close_bootinfo ctxp keeplock s =
     (case ctxp of
        None \<Rightarrow> (-1, s)
      | Some ctx \<Rightarrow>
          (let s1 = (if \<not> readonly ctx
                     then snd (set_bootdev_writeable_status (devinfo_dev ctx) False s)
                     else s)
           in if keeplock then (lockfd ctx, s1)
              else if lockfd ctx \<ge> 0 then (-1, s1\<lparr>lock := Unlocked\<rparr>)
              else (-1, s1)))"

definition bootinfo_close :: "devinfo_context option \<Rightarrow> sys \<Rightarrow> sys" where
  "bootinfo_close ctxp s = (case ctxp of None \<Rightarrow> s | Some ctx \<Rightarrow> snd (close_bootinfo ctxp False s))"

text \<open>The test \<^verbatim>\<open>*var->name == '_'\<close> of the preserving loop in \<^verbatim>\<open>bootinfo_open\<close>.\<close>

definition underscore_var :: "cstring \<times> cstring \<Rightarrow> bool" where
  "underscore_var v = (case fst v of [] \<Rightarrow> False | c # cs \<Rightarrow> c = 0x5F)"

text \<open>The loop that writes zeros over both slots; it stops at the first failure.\<close>

definition init_slots :: "sys \<Rightarrow> bool \<times> sys" where
  "init_slots s =
     (case write_slot s 0 zero_buffer of
        (False, s1) \<Rightarrow> (False, s1)
      | (True, s1) \<Rightarrow> write_slot s1 1 zero_buffer)"

text \<open>The label \<^verbatim>\<open>error_depart\<close> of \<^verbatim>\<open>bootinfo_open\<close>.\<close>

definition error_depart ::
  "errno \<Rightarrow> int \<Rightarrow> bool \<Rightarrow> string \<Rightarrow> sys \<Rightarrow> ret \<times> devinfo_context option \<times> sys"
where
  "error_depart e lfd reset_bootdev dev s =
     (let s1 = (if lfd \<ge> 0 then s\<lparr>lock := Unlocked\<rparr> else s);
          s2 = (if reset_bootdev then snd (set_bootdev_writeable_status dev False s1) else s1)
      in (ERR e, None, s2))"

text \<open>
  \<^verbatim>\<open>bootinfo_open\<close>. The context that C passes back through \<^verbatim>\<open>ctxp\<close> is the second
  component of the result.
\<close>

definition bootinfo_open :: "32 word \<Rightarrow> sys \<Rightarrow> ret \<times> devinfo_context option \<times> sys" where
  "bootinfo_open flgs s0 =
     (if flgs AND BOOTINFO_O_RDONLY \<noteq> 0 \<and> flgs AND BOOTINFO_O_FORCE_INIT \<noteq> 0
      then (ERR EINVAL, None, s0)
      else (case find_storage_dev s0 of
        (None, s1) \<Rightarrow> (ERR ENODEV, None, s1)
      | (Some dev, s1) \<Rightarrow>
          if flgs AND BOOTINFO_O_RDONLY \<noteq> 0 then find_bootinfo True dev s1
          else case find_bootinfo False dev s1 of (r, ctxo, s2) \<Rightarrow>
            if r = OK \<and> ctxo \<noteq> None \<and> flgs AND BOOTINFO_O_FORCE_INIT = 0 then (OK, ctxo, s2)
            else
              (let preserve_list =
                     (case ctxo of None \<Rightarrow> [] | Some ctx \<Rightarrow> filter underscore_var (vars ctx))
               in case (case ctxo of None \<Rightarrow> (-1, s2) | Some ctx \<Rightarrow> close_bootinfo ctxo True s2) of
                 (lfd, s3) \<Rightarrow>
               case set_bootdev_writeable_status dev True s3 of (reset_bootdev, s4) \<Rightarrow>
               case syscall 5 s4 of (dfd, s5) \<Rightarrow>
                 if dfd < 0 then error_depart EUNSET lfd reset_bootdev dev s5
                 else (case init_slots s5 of
                   (False, s6) \<Rightarrow> error_depart EIO lfd reset_bootdev dev s6
                 | (True, s6) \<Rightarrow>
                     bootinfo_update
                       (Some (calloc_context\<lparr>fd := dfd, lockfd := lfd, current := -1,
                                             vars := preserve_list\<rparr>)) s6))))"

subsection \<open>The boot state\<close>

text \<open>
  The count that C stores through \<^verbatim>\<open>failed_boot_count\<close> is the second component of the
  result; \<open>None\<close> where nothing is stored.
\<close>

definition bootinfo_mark_successful ::
  "devinfo_context option \<Rightarrow> sys \<Rightarrow> ret \<times> 32 word option \<times> devinfo_context option \<times> sys"
where
  "bootinfo_mark_successful ctxp s =
     (case ctxp of
        None \<Rightarrow> (ERR EINVAL, None, None, s)
      | Some ctx \<Rightarrow>
          if readonly ctx then (ERR EROFS, None, Some ctx, s)
          else
            (let ctx1 = ctx\<lparr>curinfo := (curinfo ctx)
                          \<lparr>flags := flags (curinfo ctx) AND NOT FLAG_BOOT_IN_PROGRESS\<rparr>\<rparr>;
                 cnt = ucast (failed_boots (curinfo ctx1));
                 ctx2 = ctx1\<lparr>curinfo := (curinfo ctx1)\<lparr>failed_boots := 0\<rparr>\<rparr>
             in case bootinfo_update (Some ctx2) s of (r, c, s1) \<Rightarrow> (r, Some cnt, c, s1)))"

definition bootinfo_mark_in_progress ::
  "devinfo_context option \<Rightarrow> sys \<Rightarrow> ret \<times> 32 word option \<times> devinfo_context option \<times> sys"
where
  "bootinfo_mark_in_progress ctxp s =
     (case ctxp of
        None \<Rightarrow> (ERR EINVAL, None, None, s)
      | Some ctx \<Rightarrow>
          if readonly ctx then (ERR EROFS, None, Some ctx, s)
          else
            (let ctx1 =
                   (if flags (curinfo ctx) AND FLAG_BOOT_IN_PROGRESS \<noteq> 0
                    then ctx\<lparr>curinfo := (curinfo ctx)
                               \<lparr>failed_boots := failed_boots (curinfo ctx) + 1\<rparr>\<rparr>
                    else ctx\<lparr>curinfo := (curinfo ctx)
                               \<lparr>flags := flags (curinfo ctx) OR FLAG_BOOT_IN_PROGRESS\<rparr>\<rparr>);
                 cnt = ucast (failed_boots (curinfo ctx1))
             in case bootinfo_update (Some ctx1) s of (r, c, s1) \<Rightarrow> (r, Some cnt, c, s1)))"

definition bootinfo_is_in_progress :: "devinfo_context option \<Rightarrow> errno + int" where
  "bootinfo_is_in_progress ctxp =
     (case ctxp of
        None \<Rightarrow> Inl EINVAL
      | Some ctx \<Rightarrow> Inr (if flags (curinfo ctx) AND FLAG_BOOT_IN_PROGRESS \<noteq> 0 then 1 else 0))"

definition bootinfo_failed_boot_count :: "devinfo_context option \<Rightarrow> errno + int" where
  "bootinfo_failed_boot_count ctxp =
     (case ctxp of None \<Rightarrow> Inl EINVAL | Some ctx \<Rightarrow> Inr (uint (failed_boots (curinfo ctx))))"

subsection \<open>Getting and setting variables\<close>

text \<open>\<^verbatim>\<open>isalpha\<close>, \<^verbatim>\<open>isalnum\<close> and \<^verbatim>\<open>isprint\<close> of the C library, in the C locale.\<close>

definition isalpha :: "byte \<Rightarrow> bool" where
  "isalpha c \<longleftrightarrow> (0x41 \<le> c \<and> c \<le> 0x5A) \<or> (0x61 \<le> c \<and> c \<le> 0x7A)"

definition isalnum :: "byte \<Rightarrow> bool" where
  "isalnum c \<longleftrightarrow> isalpha c \<or> (0x30 \<le> c \<and> c \<le> 0x39)"

definition isprint :: "byte \<Rightarrow> bool" where
  "isprint c \<longleftrightarrow> 0x20 \<le> c \<and> c \<le> 0x7E"

text \<open>
  The search of \<^verbatim>\<open>bootinfo_bootvar_get\<close>, which walks the list with
  \<^verbatim>\<open>bootinfo_bootvar_iterate\<close> and stops at the first entry of that name.
\<close>

fun lookup_var :: "cstring \<Rightarrow> (cstring \<times> cstring) list \<Rightarrow> cstring option" where
  "lookup_var name [] = None"
| "lookup_var name ((n, v) # vs) = (if name = n then Some v else lookup_var name vs)"

definition bootinfo_bootvar_get ::
  "devinfo_context option \<Rightarrow> cstring option \<Rightarrow> errno + cstring"
where
  "bootinfo_bootvar_get ctxp namep =
     (case ctxp of
        None \<Rightarrow> Inl EINVAL
      | Some ctx \<Rightarrow>
          (case namep of
             None \<Rightarrow> Inl EINVAL
           | Some name \<Rightarrow>
               (case lookup_var name (vars ctx) of None \<Rightarrow> Inl ENOENT | Some v \<Rightarrow> Inr v)))"

text \<open>
  The end of \<^verbatim>\<open>bootinfo_bootvar_set\<close>: the first entry of that name gets the new value,
  or a new entry goes to the end of the list; on a delete the first entry of that name
  is unlinked, and \<open>None\<close> says that there is none.
\<close>

fun store_var :: "cstring \<Rightarrow> cstring \<Rightarrow> (cstring \<times> cstring) list \<Rightarrow> (cstring \<times> cstring) list" where
  "store_var name val [] = [(name, val)]"
| "store_var name val ((n, v) # vs) =
     (if name = n then (n, val) # vs else (n, v) # store_var name val vs)"

fun unlink_var :: "cstring \<Rightarrow> (cstring \<times> cstring) list \<Rightarrow> (cstring \<times> cstring) list option" where
  "unlink_var name [] = None"
| "unlink_var name ((n, v) # vs) =
     (if name = n then Some vs else map_option (\<lambda>r. (n, v) # r) (unlink_var name vs))"

text \<open>A null pointer for the name or the value is \<open>None\<close>.\<close>

definition bootinfo_bootvar_set ::
  "devinfo_context option \<Rightarrow> cstring option \<Rightarrow> cstring option \<Rightarrow> ret \<times> devinfo_context option"
where
  "bootinfo_bootvar_set ctxp namep valuep =
     (case ctxp of
        None \<Rightarrow> (ERR EINVAL, ctxp)
      | Some ctx \<Rightarrow>
          (case namep of
             None \<Rightarrow> (ERR EINVAL, ctxp)
           | Some name \<Rightarrow>
               if readonly ctx then (ERR EROFS, ctxp)
               else
                 (let val = (case valuep of None \<Rightarrow> None | Some v \<Rightarrow> if v = [] then None else Some v)
                  in
                  if (case name of
                        [] \<Rightarrow> True
                      | c # cs \<Rightarrow> (c \<noteq> 0x5F \<and> \<not> isalpha c) \<or>
                                  \<not> list_all (\<lambda>c. c = 0x5F \<or> isalnum c) cs)
                  then (ERR EINVAL, ctxp)
                  else if (case val of None \<Rightarrow> False | Some v \<Rightarrow> \<not> list_all isprint v)
                  then (ERR EINVAL, ctxp)
                  else if length name \<ge> DEVINFO_BLOCK_SIZE then (ERR ENAMETOOLONG, ctxp)
                  else if (case val of
                             None \<Rightarrow> False
                           | Some v \<Rightarrow> length v \<ge> MAX_VALUE_SIZE \<or>
                                       varsize ctx + (length name + length v + 2) > MAX_VALUE_SIZE)
                  then (ERR EMSGSIZE, ctxp)
                  else
                    (case val of
                       None \<Rightarrow>
                         (case unlink_var name (vars ctx) of
                            None \<Rightarrow> (ERR ENOENT, ctxp)
                          | Some vs \<Rightarrow> (OK, Some (ctx\<lparr>vars := vs\<rparr>)))
                     | Some v \<Rightarrow> (OK, Some (ctx\<lparr>vars := store_var name v (vars ctx)\<rparr>))))))"

subsection \<open>Vocabulary of the claims\<close>

text \<open>The bytes of slot \<open>i\<close> on the device, as a buffer indexed from the start of the slot.\<close>

definition slot_image :: "buffer \<Rightarrow> nat \<Rightarrow> buffer" where
  "slot_image d i = (\<lambda>k. d (devinfo_offset i + k))"

text \<open>
  The tests under which \<^verbatim>\<open>find_bootinfo\<close> marks a slot valid, on the bytes of the slot:
  the magic, a version of at least 4, the extension sector count of the build, and the
  CRC-32 of the extension area without its last four bytes against those four bytes.
\<close>

definition slot_valid :: "buffer \<Rightarrow> bool" where
  "slot_valid b \<longleftrightarrow>
     bytes_of b OFF_MAGIC DEVICE_MAGIC_SIZE = DEVICE_MAGIC \<and>
     get16 b OFF_VERSION \<ge> DEVINFO_VERSION_CURRENT \<and>
     get16 b OFF_EXT_SECTORS = of_nat EXTENSION_SECTOR_COUNT \<and>
     crc32 0 (bytes_of b DEVINFO_BLOCK_SIZE (EXTENSION_SIZE - 4)) = get32 b (INFOBUF_SIZE - 4)"

text \<open>
  The header that the specification asks of a persisted slot: the magic, version 4, the
  flags and the count of failed boots of the in-memory header \<open>cur\<close>, the serial number
  after that of \<open>cur\<close>, and the extension sector count.
\<close>

definition header_written :: "device_info \<Rightarrow> buffer \<Rightarrow> bool" where
  "header_written cur b \<longleftrightarrow>
     bytes_of b OFF_MAGIC DEVICE_MAGIC_SIZE = DEVICE_MAGIC \<and>
     get16 b OFF_VERSION = 4 \<and>
     b OFF_FLAGS = flags cur \<and>
     b OFF_FAILED_BOOTS = failed_boots cur \<and>
     unat (b OFF_SERNUM) = (unat (sernum cur) + 1) mod 256 \<and>
     get16 b OFF_EXT_SECTORS = 1023"

text \<open>The destination of a persist in the words of the specification: the slot other
  than the current one, slot 0 when there is none.\<close>

definition spec_destination :: "int \<Rightarrow> nat" where
  "spec_destination c = (if c < 0 then 0 else nat (1 - c))"

text \<open>
  The choice of the current slot in the words of the specification, from the validity of
  the two slots and their serial numbers; -1 is no slot.
\<close>

definition spec_select :: "bool \<Rightarrow> bool \<Rightarrow> byte \<Rightarrow> byte \<Rightarrow> int" where
  "spec_select v0 v1 s0 s1 =
     (if v0 \<and> \<not> v1 then 0
      else if v1 \<and> \<not> v0 then 1
      else if v0 \<and> v1 then
        (if s0 = 255 \<and> s1 = 0 then 1
         else if s0 = 0 \<and> s1 = 255 then 0
         else if unat s0 < unat s1 then 1
         else if unat s1 < unat s0 then 0
         else 0)
      else -1)"

text \<open>\<open>k\<close> calls of \<^verbatim>\<open>bootinfo_mark_in_progress\<close> in a row on one context.\<close>

fun mark_in_progress_times ::
  "nat \<Rightarrow> devinfo_context option \<Rightarrow> sys \<Rightarrow> devinfo_context option \<times> sys"
where
  "mark_in_progress_times 0 c s = (c, s)"
| "mark_in_progress_times (Suc k) c s =
     (case bootinfo_mark_in_progress c s of (r, cnt, c1, s1) \<Rightarrow> mark_in_progress_times k c1 s1)"

text \<open>
  The packed form of a list of variables, in the words of the specification: for each
  entry the name, a null, the value, a null. A C string holds no null byte; the claims
  about variables are about lists of non-empty names and values.
\<close>

definition entry_bytes :: "cstring \<times> cstring \<Rightarrow> byte list" where
  "entry_bytes v = fst v @ [0] @ snd v @ [0]"

definition serialized :: "(cstring \<times> cstring) list \<Rightarrow> byte list" where
  "serialized vs = concat (map entry_bytes vs)"

definition wellformed_vars :: "(cstring \<times> cstring) list \<Rightarrow> bool" where
  "wellformed_vars vs \<longleftrightarrow>
     list_all (\<lambda>v. fst v \<noteq> [] \<and> snd v \<noteq> [] \<and> 0 \<notin> set (fst v) \<and> 0 \<notin> set (snd v)) vs"

text \<open>
  Concrete inputs: a blank device on which every system call succeeds, with the
  exclusive lock held; a writable context whose current slot is 0, with an empty list of
  variables; the same context with a boot in progress and 255 failed boots.
\<close>

definition blank_sys :: sys where
  "blank_sys = \<lparr> disk = zero_buffer, script = [], lock = Exclusive, wlog = [], force_ro = None \<rparr>"

definition slot0_context :: devinfo_context where
  "slot0_context = calloc_context\<lparr>fd := 5, lockfd := 4, valid := (\<lambda>i. 0)(0 := 1)\<rparr>"

definition saturated_context :: devinfo_context where
  "saturated_context =
     slot0_context\<lparr>curinfo := zero_info\<lparr>flags := 1, failed_boots := 255\<rparr>\<rparr>"

text \<open>
  More concrete inputs: a context with two variables, and a context with no variable
  whose buffer for slot 1 still holds the entry \<^verbatim>\<open>a=b\<close> of an earlier store.
\<close>

definition two_vars_context :: devinfo_context where
  "two_vars_context =
     slot0_context\<lparr>vars := [([0x61], [0x31]), ([0x5F, 0x62], [0x78, 0x79])]\<rparr>"

definition stale_context :: devinfo_context where
  "stale_context =
     slot0_context\<lparr>infobuf := (\<lambda>i. memcpy zero_buffer DEVINFO_HDR_SIZE [0x61, 0, 0x62, 0, 0])\<rparr>"

text \<open>A value of 524257 letters \<^verbatim>\<open>x\<close>, three bytes short of \<^verbatim>\<open>MAX_VALUE_SIZE\<close>.\<close>

definition long_value :: cstring where
  "long_value = replicate (MAX_VALUE_SIZE - 3) 0x78"

text \<open>
  A blank device and an environment in which \<^verbatim>\<open>flock\<close> fails: \<^verbatim>\<open>access\<close> finds the device
  (0), \<^verbatim>\<open>open\<close> of the lock directory gives descriptor 3, \<^verbatim>\<open>openat\<close> of the lockfile
  gives descriptor 4, \<^verbatim>\<open>flock\<close> returns -1, and every later call succeeds. The process
  holds no lock.
\<close>

definition flock_fails_sys :: sys where
  "flock_fails_sys = blank_sys\<lparr>script := [0, 3, 4, -1], lock := Unlocked\<rparr>"

text \<open>A context as after an open and two sets: no current slot, the variables
  \<^verbatim>\<open>_keep=1\<close> and \<^verbatim>\<open>drop=2\<close>.\<close>

definition keep_drop_context :: devinfo_context where
  "keep_drop_context =
     calloc_context\<lparr>fd := 5, lockfd := 4, current := -1,
       vars := [([0x5F, 0x6B, 0x65, 0x65, 0x70], [0x31]), ([0x64, 0x72, 0x6F, 0x70], [0x32])]\<rparr>"

text \<open>The blank device after that context has been persisted on it: a store with one
  valid slot, slot 0, of serial 1.\<close>

definition persisted_sys :: sys where
  "persisted_sys = snd (snd (bootinfo_update (Some keep_drop_context) blank_sys))"

section \<open>Facts about the model\<close>

subsection \<open>The write loop\<close>

lemmas size_defs = DEVINFO_BLOCK_SIZE_def EXTENSION_SIZE_def EXTENSION_SECTOR_COUNT_def
  DEVINFO_HDR_SIZE_def INFOBUF_SIZE_def VARSPACE_SIZE_def MAX_VALUE_SIZE_def

lemmas off_defs = OFF_MAGIC_def OFF_VERSION_def OFF_FLAGS_def OFF_FAILED_BOOTS_def
  OFF_CRCSUM_def OFF_SERNUM_def OFF_UNUSED_def OFF_EXT_SECTORS_def

lemma syscall_env:
  "syscall d s = (r, s1) \<Longrightarrow>
     disk s1 = disk s \<and> wlog s1 = wlog s \<and> lock s1 = lock s \<and> force_ro s1 = force_ro s"
  by (auto simp: syscall_def split: list.splits)

lemma dev_write_cases:
  assumes "dev_write s pos src soff len = (cnt, s1)"
  shows "(cnt = -1 \<and> disk s1 = disk s \<and> wlog s1 = wlog s \<and> lock s1 = lock s \<and> force_ro s1 = force_ro s) \<or>
         (\<exists>k\<le>len. cnt = int k \<and> disk s1 = blit (disk s) pos src soff k \<and>
            wlog s1 = wlog s @ [(pos, k, lock s)] \<and> lock s1 = lock s \<and> force_ro s1 = force_ro s)"
  using assms
  by (auto simp: dev_write_def syscall_def split: list.splits if_splits)

lemma write_loop_lower:
  "write_loop s off src soff sz n = (m, s') \<Longrightarrow> n \<le> m"
proof (induction s off src soff sz n rule: write_loop.induct)
  case (1 s off src soff sz n)
  show ?case
  proof (cases "n < sz")
    case False
    with 1(2) show ?thesis by (simp add: write_loop.simps)
  next
    case True
    obtain cnt s1 where dw: "dev_write s (off + n) src (soff + n) (sz - n) = (cnt, s1)"
      by (cases "dev_write s (off + n) src (soff + n) (sz - n)")
    show ?thesis
    proof (cases "cnt < 0")
      case True
      with 1(2) \<open>n < sz\<close> dw show ?thesis by (simp add: write_loop.simps)
    next
      case False
      with 1(2) \<open>n < sz\<close> dw have "write_loop s1 off src soff sz (n + nat cnt) = (m, s')"
        by (simp add: write_loop.simps)
      from 1(1) [OF \<open>n < sz\<close> dw [symmetric] False this] show ?thesis by simp
    qed
  qed
qed

lemma write_loop_upper:
  "write_loop s off src soff sz n = (m, s') \<Longrightarrow> n \<le> sz \<Longrightarrow> m \<le> sz"
proof (induction s off src soff sz n rule: write_loop.induct)
  case (1 s off src soff sz n)
  show ?case
  proof (cases "n < sz")
    case False
    with 1(2,3) show ?thesis by (simp add: write_loop.simps)
  next
    case True
    obtain cnt s1 where dw: "dev_write s (off + n) src (soff + n) (sz - n) = (cnt, s1)"
      by (cases "dev_write s (off + n) src (soff + n) (sz - n)")
    show ?thesis
    proof (cases "cnt < 0")
      case True
      with 1(2) \<open>n < sz\<close> dw show ?thesis by (simp add: write_loop.simps)
    next
      case False
      with 1(2) \<open>n < sz\<close> dw have wl: "write_loop s1 off src soff sz (n + nat cnt) = (m, s')"
        by (simp add: write_loop.simps)
      from dev_write_cases [OF dw] False have "n + nat cnt \<le> sz" using \<open>n < sz\<close> by auto
      from 1(1) [OF \<open>n < sz\<close> dw [symmetric] False wl this] show ?thesis .
    qed
  qed
qed

lemma write_loop_disk:
  "write_loop s off src soff sz n = (m, s') \<Longrightarrow>
     disk s' a = (if off + n \<le> a \<and> a < off + m then src (soff + (a - off)) else disk s a)"
proof (induction s off src soff sz n arbitrary: rule: write_loop.induct)
  case (1 s off src soff sz n)
  show ?case
  proof (cases "n < sz")
    case False
    with 1(2) show ?thesis by (auto simp add: write_loop.simps)
  next
    case True
    obtain cnt s1 where dw: "dev_write s (off + n) src (soff + n) (sz - n) = (cnt, s1)"
      by (cases "dev_write s (off + n) src (soff + n) (sz - n)")
    show ?thesis
    proof (cases "cnt < 0")
      case True
      with 1(2) \<open>n < sz\<close> dw have "m = n" "s' = s1" by (simp_all add: write_loop.simps)
      with dev_write_cases [OF dw] True show ?thesis by auto
    next
      case False
      with 1(2) \<open>n < sz\<close> dw have wl: "write_loop s1 off src soff sz (n + nat cnt) = (m, s')"
        by (simp add: write_loop.simps)
      from write_loop_lower [OF wl] have le: "n + nat cnt \<le> m" .
      from dev_write_cases [OF dw] False
      have d1: "disk s1 = blit (disk s) (off + n) src (soff + n) (nat cnt)" by auto
      from 1(1) [OF \<open>n < sz\<close> dw [symmetric] False wl]
      have "disk s' a = (if off + (n + nat cnt) \<le> a \<and> a < off + m then src (soff + (a - off)) else disk s1 a)" .
      with d1 le show ?thesis by (auto simp: blit_def)
    qed
  qed
qed

lemma write_loop_env:
  "write_loop s off src soff sz n = (m, s') \<Longrightarrow>
     lock s' = lock s \<and> force_ro s' = force_ro s \<and>
     (\<exists>l. wlog s' = wlog s @ l \<and> (\<forall>e\<in>set l. snd (snd e) = lock s \<and> off + n \<le> fst e \<and> fst e + fst (snd e) \<le> off + m))"
proof (induction s off src soff sz n arbitrary: rule: write_loop.induct)
  case (1 s off src soff sz n)
  show ?case
  proof (cases "n < sz")
    case False
    with 1(2) show ?thesis by (auto simp add: write_loop.simps)
  next
    case True
    obtain cnt s1 where dw: "dev_write s (off + n) src (soff + n) (sz - n) = (cnt, s1)"
      by (cases "dev_write s (off + n) src (soff + n) (sz - n)")
    show ?thesis
    proof (cases "cnt < 0")
      case True
      with 1(2) \<open>n < sz\<close> dw have "m = n" "s' = s1" by (simp_all add: write_loop.simps)
      with dev_write_cases [OF dw] True show ?thesis by auto
    next
      case False
      with 1(2) \<open>n < sz\<close> dw have wl: "write_loop s1 off src soff sz (n + nat cnt) = (m, s')"
        by (simp add: write_loop.simps)
      from write_loop_lower [OF wl] have le: "n + nat cnt \<le> m" .
      from dev_write_cases [OF dw] False
      have d1: "wlog s1 = wlog s @ [(off + n, nat cnt, lock s)]" "lock s1 = lock s" "force_ro s1 = force_ro s" by auto
      from 1(1) [OF \<open>n < sz\<close> dw [symmetric] False wl]
      obtain l where l: "lock s' = lock s1" "force_ro s' = force_ro s1" "wlog s' = wlog s1 @ l"
        "\<forall>e\<in>set l. snd (snd e) = lock s1 \<and> off + (n + nat cnt) \<le> fst e \<and> fst e + fst (snd e) \<le> off + m"
        by auto
      have a: "wlog s' = wlog s @ ((off + n, nat cnt, lock s) # l)" using l d1 by simp
      have b: "\<forall>e\<in>set ((off + n, nat cnt, lock s) # l). snd (snd e) = lock s \<and> off + n \<le> fst e \<and> fst e + fst (snd e) \<le> off + m"
        using l d1 le by auto
      have ex: "\<exists>l. wlog s' = wlog s @ l \<and> (\<forall>e\<in>set l. snd (snd e) = lock s \<and> off + n \<le> fst e \<and> fst e + fst (snd e) \<le> off + m)"
        by (rule exI [of _ "(off + n, nat cnt, lock s) # l"]) (use a b in blast)
      show ?thesis using l(1,2) d1(2,3) ex by simp
    qed
  qed
qed


subsection \<open>Buffers\<close>

lemma get16_put16: "get16 (put16 b off v) off = v"
  unfolding get16_def put16_def memcpy_def
  apply (simp)
  apply (rule bit_word_eqI)
  apply (auto simp: bit_simps)
  done

lemma get32_put32: "get32 (put32 b off v) off = v"
  unfolding get32_def put32_def memcpy_def
  apply (simp)
  apply (rule bit_word_eqI)
  apply (auto simp: bit_simps)
  subgoal for n by (cases "24 \<le> n") auto
  done

lemma put16_apply: "put16 b off v i = (if i = off then ucast v else if i = off + 1 then ucast (drop_bit 8 v) else b i)"
  by (auto simp: put16_def memcpy_def nth_Cons split: nat.splits)

lemma put32_outside: "i < off \<or> off + 4 \<le> i \<Longrightarrow> put32 b off v i = b i"
  by (auto simp: put32_def memcpy_def)

lemma get16_cong: "b off = b' off \<Longrightarrow> b (off + 1) = b' (off + 1) \<Longrightarrow> get16 b off = get16 b' off"
  by (simp add: get16_def)

lemma get32_cong: "b off = b' off \<Longrightarrow> b (off + 1) = b' (off + 1) \<Longrightarrow> b (off + 2) = b' (off + 2) \<Longrightarrow> b (off + 3) = b' (off + 3) \<Longrightarrow> get32 b off = get32 b' off"
  by (simp add: get32_def)

lemma bytes_of_cong: "(\<And>i. off \<le> i \<Longrightarrow> i < off + n \<Longrightarrow> b i = b' i) \<Longrightarrow> bytes_of b off n = bytes_of b' off n"
  by (simp add: bytes_of_def)

lemma length_bytes_of [simp]: "length (bytes_of b off n) = n"
  by (simp add: bytes_of_def)

lemma nth_bytes_of [simp]: "i < n \<Longrightarrow> bytes_of b off n ! i = b (off + i)"
  by (simp add: bytes_of_def)

lemma bytes_of_memcpy: "bytes_of (memcpy b off bs) off (length bs) = bs"
  by (auto simp: list_eq_iff_nth_eq memcpy_def)



subsection \<open>The header that an update builds\<close>

lemma header_written_cong:
  assumes "\<And>i. i < 12 \<or> (16 \<le> i \<and> i < 20) \<Longrightarrow> b i = b' i"
  shows "header_written cur b = header_written cur b'"
proof -
  have m: "bytes_of b OFF_MAGIC DEVICE_MAGIC_SIZE = bytes_of b' OFF_MAGIC DEVICE_MAGIC_SIZE"
    by (rule bytes_of_cong) (simp add: assms off_defs DEVICE_MAGIC_SIZE_def)
  have v: "get16 b OFF_VERSION = get16 b' OFF_VERSION"
    by (rule get16_cong) (simp_all add: assms off_defs)
  have e: "get16 b OFF_EXT_SECTORS = get16 b' OFF_EXT_SECTORS"
    by (rule get16_cong) (simp_all add: assms off_defs)
  have o: "b OFF_FLAGS = b' OFF_FLAGS" "b OFF_FAILED_BOOTS = b' OFF_FAILED_BOOTS"
    "b OFF_SERNUM = b' OFF_SERNUM"
    by (simp_all add: assms off_defs)
  show ?thesis unfolding header_written_def m v e o ..
qed

lemma init_header_apply:
  "init_header cur b i =
     (if i < 8 then DEVICE_MAGIC ! i
      else if i = 8 then 4 else if i = 9 then 0
      else if i = 10 then flags cur
      else if i = 11 then failed_boots cur
      else if i = 16 then sernum cur + 1
      else if i = 18 then 0xFF else if i = 19 then 3
      else if i < 512 then 0 else b i)"
  by (simp add: init_header_def Let_def put16_apply memcpy_def memset_def off_defs
      DEVICE_MAGIC_def DEVINFO_VERSION_CURRENT_def size_defs)

lemma header_written_init_header: "header_written cur (init_header cur b)"
proof -
  have "bytes_of (init_header cur b) OFF_MAGIC DEVICE_MAGIC_SIZE = DEVICE_MAGIC"
    by (simp add: list_eq_iff_nth_eq init_header_apply off_defs DEVICE_MAGIC_SIZE_def)
      (simp add: DEVICE_MAGIC_def)
  moreover have "unat (sernum cur + 1) = (unat (sernum cur) + 1) mod 256"
    by (simp add: unat_word_ariths)
  ultimately show ?thesis
    by (simp add: header_written_def init_header_apply get16_def off_defs)
qed


subsection \<open>Writing a slot\<close>

lemma extension_offset_eq: "extension_offset i = devinfo_offset i + DEVINFO_BLOCK_SIZE"
  by (simp add: extension_offset_def devinfo_offset_def)

lemma write_slot_env:
  assumes "write_slot s i b = (r, s')"
  shows "lock s' = lock s \<and> force_ro s' = force_ro s \<and>
     (\<exists>l. wlog s' = wlog s @ l \<and>
        (\<forall>e\<in>set l. snd (snd e) = lock s \<and> devinfo_offset i \<le> fst e \<and>
            fst e + fst (snd e) \<le> devinfo_offset i + INFOBUF_SIZE))"
proof -
  obtain r1 s1 where c1: "syscall 0 s = (r1, s1)" by (cases "syscall 0 s")
  note e1 = syscall_env [OF c1]
  show ?thesis
  proof (cases "r1 < 0")
    case True
    with assms c1 e1 show ?thesis by (simp add: write_slot_def)
  next
    case r1: False
    obtain n1 s2 where w1: "write_loop s1 (devinfo_offset i) b 0 DEVINFO_BLOCK_SIZE 0 = (n1, s2)"
      by (cases "write_loop s1 (devinfo_offset i) b 0 DEVINFO_BLOCK_SIZE 0")
    from write_loop_env [OF w1] obtain l1 where l1: "lock s2 = lock s1" "force_ro s2 = force_ro s1"
      "wlog s2 = wlog s1 @ l1"
      "\<forall>e\<in>set l1. snd (snd e) = lock s1 \<and> devinfo_offset i + 0 \<le> fst e \<and> fst e + fst (snd e) \<le> devinfo_offset i + n1"
      by blast
    from write_loop_upper [OF w1] have n1: "n1 \<le> DEVINFO_BLOCK_SIZE" by simp
    have l1': "\<forall>e\<in>set l1. snd (snd e) = lock s \<and> devinfo_offset i \<le> fst e \<and>
            fst e + fst (snd e) \<le> devinfo_offset i + INFOBUF_SIZE"
      using l1(4) n1 e1 by (fastforce simp: INFOBUF_SIZE_def)
    show ?thesis
    proof (cases "n1 < DEVINFO_BLOCK_SIZE")
      case True
      with assms c1 r1 w1 have "s' = s2" by (simp add: write_slot_def)
      with l1 l1' e1 show ?thesis by auto
    next
      case n1f: False
      obtain r2 s3 where c2: "syscall 0 s2 = (r2, s3)" by (cases "syscall 0 s2")
      note e2 = syscall_env [OF c2]
      show ?thesis
      proof (cases "r2 < 0")
        case True
        with assms c1 r1 w1 n1f c2 have "s' = s3" by (simp add: write_slot_def)
        with l1 l1' e1 e2 show ?thesis by auto
      next
        case r2: False
        obtain n2 s4 where w2: "write_loop s3 (extension_offset i) b DEVINFO_BLOCK_SIZE EXTENSION_SIZE 0 = (n2, s4)"
          by (cases "write_loop s3 (extension_offset i) b DEVINFO_BLOCK_SIZE EXTENSION_SIZE 0")
        from write_loop_env [OF w2] obtain l2 where l2: "lock s4 = lock s3" "force_ro s4 = force_ro s3"
          "wlog s4 = wlog s3 @ l2"
          "\<forall>e\<in>set l2. snd (snd e) = lock s3 \<and> extension_offset i + 0 \<le> fst e \<and> fst e + fst (snd e) \<le> extension_offset i + n2"
          by blast
        from write_loop_upper [OF w2] have n2: "n2 \<le> EXTENSION_SIZE" by simp
        have l2': "\<forall>e\<in>set l2. snd (snd e) = lock s \<and> devinfo_offset i \<le> fst e \<and>
            fst e + fst (snd e) \<le> devinfo_offset i + INFOBUF_SIZE"
          using l2(4) n2 e1 e2 l1(1) by (fastforce simp: INFOBUF_SIZE_def extension_offset_eq)
        from assms c1 r1 w1 n1f c2 r2 w2 have "s' = s4" by (simp add: write_slot_def)
        moreover have "wlog s4 = wlog s @ (l1 @ l2)" using l1 l2 e1 e2 by simp
        moreover have "\<forall>e\<in>set (l1 @ l2). snd (snd e) = lock s \<and> devinfo_offset i \<le> fst e \<and>
            fst e + fst (snd e) \<le> devinfo_offset i + INFOBUF_SIZE"
          using l1' l2' by auto
        ultimately show ?thesis using l1(1,2) l2(1,2) e1 e2 by (intro conjI exI [of _ "l1 @ l2"]) simp_all
      qed
    qed
  qed
qed

lemma write_slot_outside:
  assumes "write_slot s i b = (r, s')"
    and "a < devinfo_offset i \<or> devinfo_offset i + INFOBUF_SIZE \<le> a"
  shows "disk s' a = disk s a"
proof -
  obtain r1 s1 where c1: "syscall 0 s = (r1, s1)" by (cases "syscall 0 s")
  note e1 = syscall_env [OF c1]
  show ?thesis
  proof (cases "r1 < 0")
    case True
    with assms c1 e1 show ?thesis by (simp add: write_slot_def)
  next
    case r1: False
    obtain n1 s2 where w1: "write_loop s1 (devinfo_offset i) b 0 DEVINFO_BLOCK_SIZE 0 = (n1, s2)"
      by (cases "write_loop s1 (devinfo_offset i) b 0 DEVINFO_BLOCK_SIZE 0")
    from write_loop_upper [OF w1] have n1: "n1 \<le> DEVINFO_BLOCK_SIZE" by simp
    have d2: "disk s2 a = disk s a"
      using write_loop_disk [OF w1, of a] assms(2) n1 e1 by (auto simp: INFOBUF_SIZE_def)
    show ?thesis
    proof (cases "n1 < DEVINFO_BLOCK_SIZE")
      case True
      with assms c1 r1 w1 have "s' = s2" by (simp add: write_slot_def)
      with d2 show ?thesis by simp
    next
      case n1f: False
      obtain r2 s3 where c2: "syscall 0 s2 = (r2, s3)" by (cases "syscall 0 s2")
      note e2 = syscall_env [OF c2]
      show ?thesis
      proof (cases "r2 < 0")
        case True
        with assms c1 r1 w1 n1f c2 have "s' = s3" by (simp add: write_slot_def)
        with d2 e2 show ?thesis by simp
      next
        case r2: False
        obtain n2 s4 where w2: "write_loop s3 (extension_offset i) b DEVINFO_BLOCK_SIZE EXTENSION_SIZE 0 = (n2, s4)"
          by (cases "write_loop s3 (extension_offset i) b DEVINFO_BLOCK_SIZE EXTENSION_SIZE 0")
        from write_loop_upper [OF w2] have n2: "n2 \<le> EXTENSION_SIZE" by simp
        from assms c1 r1 w1 n1f c2 r2 w2 have "s' = s4" by (simp add: write_slot_def)
        moreover have "disk s4 a = disk s3 a"
          using write_loop_disk [OF w2, of a] assms(2) n2
          by (auto simp: INFOBUF_SIZE_def extension_offset_eq)
        ultimately show ?thesis using d2 e2 by simp
      qed
    qed
  qed
qed

lemma write_slot_inside:
  assumes "write_slot s i b = (True, s')"
    and "devinfo_offset i \<le> a" "a < devinfo_offset i + INFOBUF_SIZE"
  shows "disk s' a = b (a - devinfo_offset i)"
proof -
  obtain r1 s1 where c1: "syscall 0 s = (r1, s1)" by (cases "syscall 0 s")
  have r1: "\<not> r1 < 0" using assms(1) c1 by (auto simp: write_slot_def)
  obtain n1 s2 where w1: "write_loop s1 (devinfo_offset i) b 0 DEVINFO_BLOCK_SIZE 0 = (n1, s2)"
    by (cases "write_loop s1 (devinfo_offset i) b 0 DEVINFO_BLOCK_SIZE 0")
  have n1f: "\<not> n1 < DEVINFO_BLOCK_SIZE" using assms(1) c1 r1 w1 by (auto simp: write_slot_def)
  from write_loop_upper [OF w1] n1f have n1: "n1 = DEVINFO_BLOCK_SIZE" by simp
  obtain r2 s3 where c2: "syscall 0 s2 = (r2, s3)" by (cases "syscall 0 s2")
  note e2 = syscall_env [OF c2]
  have r2: "\<not> r2 < 0" using assms(1) c1 r1 w1 n1f c2 by (auto simp: write_slot_def)
  obtain n2 s4 where w2: "write_loop s3 (extension_offset i) b DEVINFO_BLOCK_SIZE EXTENSION_SIZE 0 = (n2, s4)"
    by (cases "write_loop s3 (extension_offset i) b DEVINFO_BLOCK_SIZE EXTENSION_SIZE 0")
  from assms(1) c1 r1 w1 n1f c2 r2 w2 have s4: "s' = s4" "\<not> n2 < EXTENSION_SIZE"
    by (simp_all add: write_slot_def)
  from write_loop_upper [OF w2] s4 have n2: "n2 = EXTENSION_SIZE" by simp
  have d2: "disk s2 a = (if a < devinfo_offset i + DEVINFO_BLOCK_SIZE then b (a - devinfo_offset i) else disk s1 a)"
    using write_loop_disk [OF w1, of a] assms(2) n1 by auto
  have d4: "disk s4 a = (if devinfo_offset i + DEVINFO_BLOCK_SIZE \<le> a then b (a - devinfo_offset i) else disk s3 a)"
    using write_loop_disk [OF w2, of a] assms(2,3) n2
    by (auto simp: INFOBUF_SIZE_def extension_offset_eq)
  show ?thesis using d2 d4 e2 s4 by auto
qed


subsection \<open>What an update does to the context and to the device\<close>

lemma pack_loop_outside:
  "pack_loop vs b cp remain = (r, b') \<Longrightarrow> i < cp \<or> cp + remain \<le> i \<Longrightarrow> b' i = b i"
proof (induction vs b cp remain rule: pack_loop.induct)
  case (1 b cp remain)
  then show ?case by (auto split: if_splits)
next
  case (2 name val vs b cp remain)
  show ?case
  proof (cases "remain > 0 \<and> \<not> (length name + 1) + (length val + 1) > remain")
    case True
    with 2 have "b' i = (memcpy (memcpy b cp (name @ [0])) (cp + (length name + 1)) (val @ [0])) i"
      by auto
    also have "\<dots> = b i" using 2(3) True by (auto simp: memcpy_def)
    finally show ?thesis .
  next
    case False
    with 2 show ?thesis by (auto split: if_splits)
  qed
qed

lemma pack_vars_frame:
  "pack_vars ctx idx = (r, ctx') \<Longrightarrow>
     \<exists>b. ctx' = ctx\<lparr>infobuf := (infobuf ctx)(nat idx := b)\<rparr> \<and>
         (\<forall>i. i < DEVINFO_HDR_SIZE \<or> INFOBUF_SIZE - 5 \<le> i \<longrightarrow> b i = infobuf ctx (nat idx) i)"
proof (cases "(idx \<noteq> 0 \<and> idx \<noteq> 1) \<or> vars ctx = []")
  case True
  assume "pack_vars ctx idx = (r, ctx')"
  with True have "ctx' = ctx" by (auto simp: pack_vars_def split: if_splits)
  then show ?thesis by (intro exI [of _ "infobuf ctx (nat idx)"]) simp
next
  case False
  assume a: "pack_vars ctx idx = (r, ctx')"
  obtain r1 b where pl: "pack_loop (vars ctx) (infobuf ctx (nat idx)) DEVINFO_HDR_SIZE (VARSPACE_SIZE - 1) = (r1, b)"
    by (cases "pack_loop (vars ctx) (infobuf ctx (nat idx)) DEVINFO_HDR_SIZE (VARSPACE_SIZE - 1)")
  with a False have "ctx' = ctx\<lparr>infobuf := (infobuf ctx)(nat idx := b)\<rparr>"
    by (auto simp: pack_vars_def)
  moreover have "\<forall>i. i < DEVINFO_HDR_SIZE \<or> INFOBUF_SIZE - 5 \<le> i \<longrightarrow> b i = infobuf ctx (nat idx) i"
    using pack_loop_outside [OF pl] by (auto simp: size_defs)
  ultimately show ?thesis by blast
qed

lemma store_crcs_outside:
  "i < 12 \<or> (16 \<le> i \<and> i < INFOBUF_SIZE - 4) \<or> INFOBUF_SIZE \<le> i \<Longrightarrow> store_crcs b i = b i"
  by (auto simp: store_crcs_def Let_def put32_outside off_defs size_defs)

lemma bootinfo_update_Some:
  assumes ro: "\<not> readonly ctx" and up: "bootinfo_update (Some ctx) s = (r, c, s')"
  shows "\<exists>B. c = Some (ctx\<lparr>infobuf := (infobuf ctx)(nat (update_index ctx) := B)\<rparr>) \<and>
           header_written (curinfo ctx) B \<and>
           (\<forall>i\<ge>INFOBUF_SIZE. B i = infobuf ctx (nat (update_index ctx)) i) \<and>
           (if r = OK then write_slot s (nat (update_index ctx)) B = (True, s')
            else s' = s \<or> write_slot s (nat (update_index ctx)) B = (False, s'))"
proof -
  define D where "D = nat (update_index ctx)"
  define ctx1 where "ctx1 = ctx\<lparr>infobuf := (infobuf ctx)(D := init_header (curinfo ctx) (infobuf ctx D))\<rparr>"
  obtain r1 ctx2 where pv: "pack_vars ctx1 (update_index ctx) = (r1, ctx2)"
    by (cases "pack_vars ctx1 (update_index ctx)")
  from pack_vars_frame [OF pv] obtain b where b: "ctx2 = ctx1\<lparr>infobuf := (infobuf ctx1)(D := b)\<rparr>"
    "\<forall>i. i < DEVINFO_HDR_SIZE \<or> INFOBUF_SIZE - 5 \<le> i \<longrightarrow> b i = infobuf ctx1 D i"
    unfolding D_def by blast
  have c2: "ctx2 = ctx\<lparr>infobuf := (infobuf ctx)(D := b)\<rparr>" using b(1) by (simp add: ctx1_def)
  have b20: "\<And>i. i < 20 \<Longrightarrow> b i = init_header (curinfo ctx) (infobuf ctx D) i"
    using b(2) by (simp add: ctx1_def size_defs)
  have bhi: "\<And>i. INFOBUF_SIZE \<le> i \<Longrightarrow> b i = infobuf ctx D i"
    using b(2) by (simp add: ctx1_def size_defs init_header_apply)
  have "header_written (curinfo ctx) b =
          header_written (curinfo ctx) (init_header (curinfo ctx) (infobuf ctx D))"
    by (rule header_written_cong) (use b20 in auto)
  then have hb: "header_written (curinfo ctx) b"
    by (simp add: header_written_init_header)
  show ?thesis
  proof (cases r1)
    case (ERR e)
    with up ro pv have "c = Some ctx2" "s' = s" "r \<noteq> OK"
      by (auto simp: bootinfo_update_def Let_def ctx1_def D_def)
    with c2 hb bhi show ?thesis unfolding D_def [symmetric] by (intro exI [of _ b]) simp
  next
    case OK
    define B where "B = store_crcs b"
    have "header_written (curinfo ctx) B = header_written (curinfo ctx) b"
      by (rule header_written_cong) (auto simp: B_def store_crcs_outside size_defs)
    then have hB: "header_written (curinfo ctx) B"
      using hb by simp
    have Bhi: "\<forall>i\<ge>INFOBUF_SIZE. B i = infobuf ctx D i"
      using bhi by (simp add: B_def store_crcs_outside)
    obtain w s1 where ws: "write_slot s D B = (w, s1)" by (cases "write_slot s D B")
    from up ro pv OK ws c2
    have "c = Some (ctx\<lparr>infobuf := (infobuf ctx)(D := B)\<rparr>)" "s' = s1" "r = OK \<longleftrightarrow> w"
      by (auto simp: bootinfo_update_def Let_def ctx1_def D_def B_def split: bool.splits)
    with ws hB Bhi show ?thesis unfolding D_def [symmetric]
      by (intro exI [of _ B]) (cases w; simp)
  qed
qed


subsection \<open>Runs in which no system call fails\<close>

lemma write_loop_full:
  "script s = [] \<Longrightarrow> n \<le> sz \<Longrightarrow>
     fst (write_loop s off src soff sz n) = sz \<and> script (snd (write_loop s off src soff sz n)) = []"
proof (cases "n < sz")
  case False
  assume "n \<le> sz" "script s = []"
  with False show ?thesis by (simp add: write_loop.simps)
next
  case True
  assume s: "script s = []"
  have dw: "dev_write s (off + n) src (soff + n) (sz - n) =
      (int (sz - n), s\<lparr>disk := blit (disk s) (off + n) src (soff + n) (sz - n),
                 wlog := wlog s @ [(off + n, sz - n, lock s)]\<rparr>)"
    using s by (simp add: dev_write_def syscall_def)
  have "write_loop s off src soff sz n =
     write_loop (s\<lparr>disk := blit (disk s) (off + n) src (soff + n) (sz - n),
                 wlog := wlog s @ [(off + n, sz - n, lock s)]\<rparr>) off src soff sz sz"
  proof -
    have "n + nat (int sz - int n) = sz" using True by simp
    then show ?thesis using True by (subst write_loop.simps) (simp add: dw)
  qed
  also have "\<dots> = (sz, s\<lparr>disk := blit (disk s) (off + n) src (soff + n) (sz - n),
                 wlog := wlog s @ [(off + n, sz - n, lock s)]\<rparr>)"
    by (simp add: write_loop.simps)
  finally show ?thesis using s by simp
qed

lemma syscall_empty: "script s = [] \<Longrightarrow> syscall d s = (d, s)"
  by (simp add: syscall_def)

lemma write_slot_full:
  assumes "script s = []"
  shows "fst (write_slot s i b) \<and> script (snd (write_slot s i b)) = []"
proof -
  obtain n1 s2 where w1: "write_loop s (devinfo_offset i) b 0 DEVINFO_BLOCK_SIZE 0 = (n1, s2)"
    by (cases "write_loop s (devinfo_offset i) b 0 DEVINFO_BLOCK_SIZE 0")
  from write_loop_full [OF assms, of 0 DEVINFO_BLOCK_SIZE "devinfo_offset i" b 0] w1
  have n1: "n1 = DEVINFO_BLOCK_SIZE" "script s2 = []" by simp_all
  obtain n2 s4 where w2: "write_loop s2 (extension_offset i) b DEVINFO_BLOCK_SIZE EXTENSION_SIZE 0 = (n2, s4)"
    by (cases "write_loop s2 (extension_offset i) b DEVINFO_BLOCK_SIZE EXTENSION_SIZE 0")
  from write_loop_full [OF n1(2), of 0 EXTENSION_SIZE "extension_offset i" b DEVINFO_BLOCK_SIZE] w2
  have n2: "n2 = EXTENSION_SIZE" "script s4 = []" by simp_all
  show ?thesis
    by (simp add: write_slot_def syscall_empty assms w1 n1 w2 n2)
qed

lemma bootinfo_update_succeeds:
  assumes "\<not> readonly ctx" "vars ctx = []" "script s = []"
  shows "fst (bootinfo_update (Some ctx) s) = OK"
proof -
  have "pack_vars (ctx\<lparr>infobuf := (infobuf ctx)
                          (nat (update_index ctx) := init_header (curinfo ctx) (infobuf ctx (nat (update_index ctx))))\<rparr>) (update_index ctx)
       = (OK, ctx\<lparr>infobuf := (infobuf ctx)
                          (nat (update_index ctx) := init_header (curinfo ctx) (infobuf ctx (nat (update_index ctx))))\<rparr>)"
    using assms(2) by (auto simp: pack_vars_def update_index_def)
  moreover obtain w s1 where ws: "write_slot s (nat (update_index ctx))
      (store_crcs (init_header (curinfo ctx) (infobuf ctx (nat (update_index ctx))))) = (w, s1)"
    by (cases "write_slot s (nat (update_index ctx))
      (store_crcs (init_header (curinfo ctx) (infobuf ctx (nat (update_index ctx)))))")
  moreover have w using write_slot_full [OF assms(3), of "nat (update_index ctx)"
      "store_crcs (init_header (curinfo ctx) (infobuf ctx (nat (update_index ctx))))"] ws by simp
  ultimately show ?thesis
    using assms(1) by (simp add: bootinfo_update_def Let_def)
qed

subsection \<open>The context after an update\<close>

lemma bootinfo_update_readonly:
  "readonly ctx \<Longrightarrow> bootinfo_update (Some ctx) s = (ERR EROFS, Some ctx, s)"
  by (simp add: bootinfo_update_def)

lemma bootinfo_update_context:
  assumes up: "bootinfo_update (Some ctx) s = (r, c, s')"
  shows "\<exists>B. c = Some (ctx\<lparr>infobuf := (infobuf ctx)(nat (update_index ctx) := B)\<rparr>) \<and>
             (\<not> readonly ctx \<longrightarrow> header_written (curinfo ctx) B)"
proof (cases "readonly ctx")
  case True
  with up have "c = Some ctx" by (simp add: bootinfo_update_readonly)
  with True show ?thesis by (intro exI [of _ "infobuf ctx (nat (update_index ctx))"]) simp
next
  case False
  from bootinfo_update_Some [OF False up] False show ?thesis by blast
qed

subsection \<open>The boot state\<close>

lemma mark_in_progress_Some:
  assumes ro: "\<not> readonly ctx"
    and m: "bootinfo_mark_in_progress (Some ctx) s = (r, cnt, c, s')"
  shows "\<exists>ctx'. c = Some ctx' \<and> \<not> readonly ctx' \<and>
     curinfo ctx' =
       (if flags (curinfo ctx) AND FLAG_BOOT_IN_PROGRESS \<noteq> 0
        then (curinfo ctx)\<lparr>failed_boots := failed_boots (curinfo ctx) + 1\<rparr>
        else (curinfo ctx)\<lparr>flags := flags (curinfo ctx) OR FLAG_BOOT_IN_PROGRESS\<rparr>) \<and>
     cnt = Some (ucast (failed_boots (curinfo ctx')))"
proof -
  define ctx1 where "ctx1 =
     (if flags (curinfo ctx) AND FLAG_BOOT_IN_PROGRESS \<noteq> 0
      then ctx\<lparr>curinfo := (curinfo ctx)\<lparr>failed_boots := failed_boots (curinfo ctx) + 1\<rparr>\<rparr>
      else ctx\<lparr>curinfo := (curinfo ctx)\<lparr>flags := flags (curinfo ctx) OR FLAG_BOOT_IN_PROGRESS\<rparr>\<rparr>)"
  obtain r1 c1 s1 where up: "bootinfo_update (Some ctx1) s = (r1, c1, s1)"
    by (cases "bootinfo_update (Some ctx1) s")
  from m ro up have res: "c = c1" "cnt = Some (ucast (failed_boots (curinfo ctx1)))"
    by (simp_all add: bootinfo_mark_in_progress_def Let_def ctx1_def)
  from bootinfo_update_context [OF up] obtain B where
    "c1 = Some (ctx1\<lparr>infobuf := (infobuf ctx1)(nat (update_index ctx1) := B)\<rparr>)" by blast
  with res ro show ?thesis by (auto simp: ctx1_def)
qed

lemma mark_successful_Some:
  assumes ro: "\<not> readonly ctx"
    and m: "bootinfo_mark_successful (Some ctx) s = (r, cnt, c, s')"
  shows "\<exists>ctx'. c = Some ctx' \<and> \<not> readonly ctx' \<and>
     curinfo ctx' = (curinfo ctx)\<lparr>flags := flags (curinfo ctx) AND NOT FLAG_BOOT_IN_PROGRESS,
                                   failed_boots := 0\<rparr> \<and>
     cnt = Some (ucast (failed_boots (curinfo ctx)))"
proof -
  define ctx2 where "ctx2 = ctx\<lparr>curinfo := (curinfo ctx)
      \<lparr>flags := flags (curinfo ctx) AND NOT FLAG_BOOT_IN_PROGRESS, failed_boots := 0\<rparr>\<rparr>"
  obtain r1 c1 s1 where up: "bootinfo_update (Some ctx2) s = (r1, c1, s1)"
    by (cases "bootinfo_update (Some ctx2) s")
  from m ro up have res: "c = c1" "cnt = Some (ucast (failed_boots (curinfo ctx)))"
    by (simp_all add: bootinfo_mark_successful_def Let_def ctx2_def)
  from bootinfo_update_context [OF up] obtain B where
    "c1 = Some (ctx2\<lparr>infobuf := (infobuf ctx2)(nat (update_index ctx2) := B)\<rparr>)" by blast
  with res ro show ?thesis by (auto simp: ctx2_def)
qed

lemma flag_set_or: "((f::byte) OR FLAG_BOOT_IN_PROGRESS) AND FLAG_BOOT_IN_PROGRESS \<noteq> 0"
proof
  assume z: "(f OR FLAG_BOOT_IN_PROGRESS) AND FLAG_BOOT_IN_PROGRESS = 0"
  have "bit ((f OR FLAG_BOOT_IN_PROGRESS) AND FLAG_BOOT_IN_PROGRESS) 0"
    unfolding FLAG_BOOT_IN_PROGRESS_def bit_and_iff bit_or_iff by simp
  with z show False by simp
qed

lemma flag_clear_and: "((f::byte) AND NOT FLAG_BOOT_IN_PROGRESS) AND FLAG_BOOT_IN_PROGRESS = 0"
  unfolding FLAG_BOOT_IN_PROGRESS_def
  by (rule bit_word_eqI) (auto simp: bit_simps)

lemma mark_in_progress_times_set:
  "\<not> readonly ctx \<Longrightarrow> flags (curinfo ctx) AND FLAG_BOOT_IN_PROGRESS \<noteq> 0 \<Longrightarrow>
   mark_in_progress_times k (Some ctx) s = (c, s') \<Longrightarrow>
   \<exists>ctx'. c = Some ctx' \<and> \<not> readonly ctx' \<and>
      flags (curinfo ctx') AND FLAG_BOOT_IN_PROGRESS \<noteq> 0 \<and>
      failed_boots (curinfo ctx') = failed_boots (curinfo ctx) + of_nat k"
proof (induction k arbitrary: ctx s)
  case 0
  then show ?case by auto
next
  case (Suc k)
  obtain r cnt c1 s1 where m: "bootinfo_mark_in_progress (Some ctx) s = (r, cnt, c1, s1)"
    by (cases "bootinfo_mark_in_progress (Some ctx) s") auto
  from mark_in_progress_Some [OF Suc.prems(1) m] Suc.prems(2) obtain ctx1 where
    c1: "c1 = Some ctx1" "\<not> readonly ctx1"
      "curinfo ctx1 = (curinfo ctx)\<lparr>failed_boots := failed_boots (curinfo ctx) + 1\<rparr>"
    by auto
  from Suc.prems(3) m c1 have "mark_in_progress_times k (Some ctx1) s1 = (c, s')" by simp
  from Suc.IH [OF c1(2) _ this] c1(3) Suc.prems(2) show ?case by (auto simp: algebra_simps)
qed

lemma uint_ucast_byte: "uint (ucast (x::byte) :: 32 word) = uint x"
  by (simp add: uint_up_ucast is_up)

lemma in_progress_iff:
  "bootinfo_is_in_progress (Some ctx) = Inr 1 \<longleftrightarrow> flags (curinfo ctx) AND FLAG_BOOT_IN_PROGRESS \<noteq> 0"
  "bootinfo_is_in_progress (Some ctx) = Inr 0 \<longleftrightarrow> flags (curinfo ctx) AND FLAG_BOOT_IN_PROGRESS = 0"
  by (simp_all add: bootinfo_is_in_progress_def)

subsection \<open>Opening a store\<close>

lemma set_bootdev_env:
  "set_bootdev_writeable_status dev mk s = (r, s') \<Longrightarrow>
     disk s' = disk s \<and> script s' = script s \<and> lock s' = lock s \<and> wlog s' = wlog s"
  by (auto simp: set_bootdev_writeable_status_def split: if_splits option.splits)

lemma snd_set_bootdev_env [simp]:
  "disk (snd (set_bootdev_writeable_status dev mk s)) = disk s"
  "script (snd (set_bootdev_writeable_status dev mk s)) = script s"
  "lock (snd (set_bootdev_writeable_status dev mk s)) = lock s"
  "wlog (snd (set_bootdev_writeable_status dev mk s)) = wlog s"
  using set_bootdev_env [of dev mk s "fst (set_bootdev_writeable_status dev mk s)"
      "snd (set_bootdev_writeable_status dev mk s)"]
  by simp_all

lemma choose_current_spec:
  "choose_current ctx =
     spec_select (valid ctx 0 \<noteq> 0) (valid ctx 1 \<noteq> 0)
       (infobuf ctx 0 OFF_SERNUM) (infobuf ctx 1 OFF_SERNUM)"
  by (auto simp: choose_current_def spec_select_def Let_def info_of_def word_less_nat_alt)

lemma choose_current_cong:
  "valid ctx' = valid ctx \<Longrightarrow> infobuf ctx' = infobuf ctx \<Longrightarrow> choose_current ctx' = choose_current ctx"
  by (simp add: choose_current_def)

lemma parse_vars_frame:
  "parse_vars ctx = (r, ctx') \<Longrightarrow>
     \<exists>vs n. ctx' = ctx\<lparr>vars := vs, varsize := n\<rparr>"
proof (cases "current ctx < 0")
  case True
  assume "parse_vars ctx = (r, ctx')"
  with True have "ctx' = ctx\<lparr>vars := []\<rparr>"
    by (simp add: parse_vars_def)
  then have "ctx' = ctx\<lparr>vars := [], varsize := varsize ctx\<rparr>"
    by simp
  then show ?thesis by blast
next
  case False
  assume "parse_vars ctx = (r, ctx')"
  with False show ?thesis
    by (auto simp: parse_vars_def split: prod.splits)
qed

lemma find_bootinfo_current:
  assumes "find_bootinfo ro dev s = (r, Some ctx, s')"
  shows "current ctx = choose_current ctx"
proof -
  have *: "current c5 = choose_current c5"
    if "parse_vars (c2\<lparr>current := choose_current c2, curinfo := ci\<rparr>) = (r5, c5)"
    for c2 ci r5 c5
  proof -
    from parse_vars_frame [OF that] obtain vs n where
      "c5 = c2\<lparr>current := choose_current c2, curinfo := ci, vars := vs, varsize := n\<rparr>" by auto
    then show ?thesis by (simp add: choose_current_def)
  qed
  have **: "choose_current (c5\<lparr>readonly := True\<rparr>) = choose_current c5" for c5
    by (simp add: choose_current_def)
  show ?thesis
    using assms
    unfolding find_bootinfo_def Let_def
    by (auto split: prod.splits option.splits if_splits ret.splits simp: * ** choose_current_def [of "_\<lparr>current := -1, curinfo := zero_info\<rparr>"])
qed

lemma read_loop_full:
  assumes "script s = []" "n \<le> sz"
  shows "read_loop s off dst doff sz n =
     (sz, if n < sz then blit dst (doff + n) (disk s) (off + n) (sz - n) else dst, s)"
proof (cases "n < sz")
  case False
  with assms show ?thesis by (simp add: read_loop.simps)
next
  case True
  have dr: "dev_read s (off + n) dst (doff + n) (sz - n) =
      (int (sz - n), blit dst (doff + n) (disk s) (off + n) (sz - n), s)"
    using assms(1) by (simp add: dev_read_def syscall_def)
  have k: "n + nat (int sz - int n) = sz" using True by simp
  have "read_loop s off dst doff sz n =
     read_loop s off (blit dst (doff + n) (disk s) (off + n) (sz - n)) doff sz sz"
    using True k by (subst read_loop.simps) (simp add: dr)
  also have "\<dots> = (sz, blit dst (doff + n) (disk s) (off + n) (sz - n), s)"
    by (simp add: read_loop.simps)
  finally show ?thesis using True by simp
qed

lemma magic_first_byte:
  "bytes_of b OFF_MAGIC DEVICE_MAGIC_SIZE = DEVICE_MAGIC \<Longrightarrow> b 0 = 0x42"
proof -
  assume a: "bytes_of b OFF_MAGIC DEVICE_MAGIC_SIZE = DEVICE_MAGIC"
  have "bytes_of b OFF_MAGIC DEVICE_MAGIC_SIZE ! 0 = b 0"
    by (simp add: OFF_MAGIC_def DEVICE_MAGIC_SIZE_def)
  with a show ?thesis by (simp add: DEVICE_MAGIC_def)
qed

lemma read_slot_no_magic:
  assumes "script s = []" "disk s (devinfo_offset i) \<noteq> 0x42"
  shows "read_slot i ctx s =
     (ctx\<lparr>infobuf := (infobuf ctx)
        (i := blit (infobuf ctx i) 0 (disk s) (devinfo_offset i) DEVINFO_BLOCK_SIZE)\<rparr>, s)"
proof -
  define b1 where "b1 = blit (infobuf ctx i) 0 (disk s) (devinfo_offset i) DEVINFO_BLOCK_SIZE"
  have rl: "read_loop s (devinfo_offset i) (infobuf ctx i) 0 DEVINFO_BLOCK_SIZE 0 =
      (DEVINFO_BLOCK_SIZE, b1, s)"
    using read_loop_full [OF assms(1), of 0 DEVINFO_BLOCK_SIZE "devinfo_offset i" "infobuf ctx i" 0]
    by (simp add: b1_def DEVINFO_BLOCK_SIZE_def)
  have "b1 0 \<noteq> 0x42" using assms(2) by (simp add: b1_def blit_def DEVINFO_BLOCK_SIZE_def)
  then have "bytes_of b1 OFF_MAGIC DEVICE_MAGIC_SIZE \<noteq> DEVICE_MAGIC"
    using magic_first_byte by blast
  then show ?thesis
    by (simp add: read_slot_def syscall_empty assms(1) rl Let_def b1_def)
qed

lemma find_bootinfo_blank:
  assumes "script s = []" "disk s (devinfo_offset 0) \<noteq> 0x42" "disk s (devinfo_offset 1) \<noteq> 0x42"
  shows "\<exists>ctx s'. find_bootinfo ro dev s = (ERR EUNSET, Some ctx, s') \<and>
      current ctx = -1 \<and> vars ctx = [] \<and> curinfo ctx = zero_info \<and> lockfd ctx = 4 \<and>
      readonly ctx = ro \<and> devinfo_dev ctx = dev \<and>
      script s' = [] \<and> disk s' = disk s \<and> wlog s' = wlog s \<and>
      lock s' = (if ro then Shared else Exclusive)"
  using assms
  by (simp add: find_bootinfo_def syscall_empty Let_def read_slot_no_magic
      calloc_context_def del: One_nat_def)

subsection \<open>Packing and parsing the variable area\<close>

lemma bytes_of_append:
  "bytes_of b off (m + k) = bytes_of b off m @ bytes_of b (off + m) k"
  by (auto simp: list_eq_iff_nth_eq nth_append)

lemma bytes_of_eq_iff:
  "bytes_of b off (length bs) = bs \<longleftrightarrow> (\<forall>i<length bs. b (off + i) = bs ! i)"
  by (auto simp: list_eq_iff_nth_eq)

lemma serialized_Cons:
  "serialized ((n, v) # vs) = n @ [0] @ v @ [0] @ serialized vs"
  by (simp add: serialized_def entry_bytes_def)

lemma serialized_Nil [simp]: "serialized [] = []"
  by (simp add: serialized_def)

lemma scan_string:
  "(\<forall>i<L. b (p + i) \<noteq> 0) \<Longrightarrow> b (p + L) = 0 \<Longrightarrow> vb + L < remain \<Longrightarrow>
     scan b remain p vb = (p + L, vb + L)"
proof (induction L arbitrary: p vb)
  case 0
  then show ?case by (simp add: scan.simps)
next
  case (Suc L)
  from Suc.prems have nz: "b p \<noteq> 0" and lt: "vb < remain" by auto
  have "scan b remain p vb = scan b remain (p + 1) (vb + 1)"
    using nz lt by (subst scan.simps) simp
  also have "\<dots> = (p + 1 + L, vb + 1 + L)"
  proof (rule Suc.IH)
    show "\<forall>i<L. b (p + 1 + i) \<noteq> 0" using Suc.prems(1) by (auto simp: less_Suc_eq_0_disj)
    show "b (p + 1 + L) = 0" using Suc.prems(2) by simp
    show "vb + 1 + L < remain" using Suc.prems(3) by simp
  qed
  finally show ?case by simp
qed

lemma pack_loop_serialized:
  "pack_loop vs b cp remain = (OK, b') \<Longrightarrow>
     length (serialized vs) < remain \<and>
     bytes_of b' cp (length (serialized vs) + 1) = serialized vs @ [0]"
proof (induction vs b cp remain arbitrary: b' rule: pack_loop.induct)
  case (1 b cp remain)
  then show ?case by (auto simp: bytes_of_def split: if_splits)
next
  case (2 name val vs b cp remain)
  define e where "e = name @ [0] @ val @ [0]"
  define b1 where "b1 = memcpy (memcpy b cp (name @ [0])) (cp + (length name + 1)) (val @ [0])"
  have le: "length e = (length name + 1) + (length val + 1)" by (simp add: e_def)
  from 2(2) have fit: "remain > 0" "\<not> (length name + 1) + (length val + 1) > remain"
    and rec: "pack_loop vs b1 (cp + (length name + 1) + (length val + 1))
                (remain - (length name + 1) - (length val + 1)) = (OK, b')"
    by (auto simp: b1_def split: if_splits)
  from 2(1) [OF fit rec [unfolded b1_def]] have
    ih: "length (serialized vs) < remain - (length name + 1) - (length val + 1)"
      "bytes_of b' (cp + length e) (length (serialized vs) + 1) = serialized vs @ [0]"
    by (simp_all add: le add.assoc)
  have "\<And>i. i < cp + length e \<Longrightarrow> b' i = b1 i"
    using pack_loop_outside [OF rec] by (simp add: le add.assoc)
  moreover have "\<And>i. i < length e \<Longrightarrow> b1 (cp + i) = e ! i"
    by (auto simp: b1_def memcpy_def e_def nth_append)
  ultimately have "bytes_of b' cp (length e) = e"
    by (simp add: bytes_of_eq_iff)
  with ih(2) have "bytes_of b' cp (length e + (length (serialized vs) + 1)) = e @ serialized vs @ [0]"
    unfolding bytes_of_append by simp
  moreover have "serialized ((name, val) # vs) = e @ serialized vs"
    by (simp add: serialized_Cons e_def)
  ultimately show ?case using ih(1) fit le by (simp add: add.assoc)
qed

lemma pack_loop_succeeds:
  "length (serialized vs) < remain \<Longrightarrow> fst (pack_loop vs b cp remain) = OK"
proof (induction vs b cp remain rule: pack_loop.induct)
  case (1 b cp remain)
  then show ?case by simp
next
  case (2 name val vs b cp remain)
  from 2(2) have fit: "remain > 0" "\<not> (length name + 1) + (length val + 1) > remain"
    and r: "length (serialized vs) < remain - (length name + 1) - (length val + 1)"
    by (simp_all add: serialized_Cons)
  from 2(1) [OF fit r] fit show ?case by simp
qed

lemma parse_loop_serialized:
  "wellformed_vars vs \<Longrightarrow> length (serialized vs) < remain \<Longrightarrow>
   bytes_of b cp (length (serialized vs) + 1) = serialized vs @ [0] \<Longrightarrow>
   parse_loop b cp remain acc vsize = (acc @ vs, vsize + length (serialized vs))"
proof (induction vs arbitrary: cp remain acc vsize)
  case Nil
  then have "b cp = 0" by (simp add: bytes_of_def)
  then show ?case by (simp add: parse_loop.simps)
next
  case (Cons x vs)
  obtain name val where x: "x = (name, val)" by (cases x)
  define L where "L = length name"
  define M where "M = length val"
  define e where "e = name @ [0] @ val @ [0]"
  have le: "length e = L + M + 2" by (simp add: e_def L_def M_def)
  have ser: "serialized (x # vs) = e @ serialized vs"
    by (simp add: x serialized_Cons e_def)
  from Cons.prems(1) x have wf: "name \<noteq> []" "0 \<notin> set name" "0 \<notin> set val" "wellformed_vars vs"
    by (simp_all add: wellformed_vars_def)
  from Cons.prems(2) have rem: "L + M + 2 + length (serialized vs) < remain"
    by (simp add: ser le)
  have reg: "\<And>i. i < length e + length (serialized vs) + 1 \<Longrightarrow>
      b (cp + i) = (e @ serialized vs @ [0]) ! i"
    using Cons.prems(3) [unfolded ser]
    by (metis (no_types, lifting) append.assoc length_append length_append_singleton
        nth_bytes_of Suc_eq_plus1)
  have bn: "\<And>i. i < L \<Longrightarrow> b (cp + i) = name ! i"
    using reg [of _] le by (simp add: e_def nth_append L_def)
  have b0: "b (cp + L) = 0"
    using reg [of L] le by (simp add: e_def nth_append L_def)
  have bv: "\<And>i. i < M \<Longrightarrow> b (cp + L + 1 + i) = val ! i"
  proof -
    fix i assume i: "i < M"
    have "b (cp + (L + 1 + i)) = (e @ serialized vs @ [0]) ! (L + 1 + i)"
      using reg [of "L + 1 + i"] le i by simp
    also have "\<dots> = val ! i"
      using i by (simp add: e_def nth_append L_def M_def)
    finally show "b (cp + L + 1 + i) = val ! i" by (simp add: add.assoc)
  qed
  have b1: "b (cp + L + 1 + M) = 0"
  proof -
    have "b (cp + (L + 1 + M)) = (e @ serialized vs @ [0]) ! (L + 1 + M)"
      using reg [of "L + 1 + M"] le by simp
    also have "\<dots> = 0"
      by (simp add: e_def nth_append L_def M_def)
    finally show ?thesis by (simp add: add.assoc)
  qed
  have Lpos: "0 < L" using wf(1) by (simp add: L_def)
  have nz_name: "\<And>i. i < L \<Longrightarrow> b (cp + i) \<noteq> 0"
    using bn wf(2) by (metis L_def nth_mem)
  have nz_val: "\<And>i. i < M \<Longrightarrow> b (cp + L + 1 + i) \<noteq> 0"
    using bv wf(3) by (metis M_def nth_mem)
  have s1: "scan b remain (cp + 1) 1 = (cp + L, L)"
  proof -
    have "scan b remain (cp + 1) 1 = (cp + 1 + (L - 1), 1 + (L - 1))"
    proof (rule scan_string)
      show "\<forall>i<L - 1. b (cp + 1 + i) \<noteq> 0"
      proof (intro allI impI)
        fix i assume "i < L - 1"
        then have "1 + i < L" by simp
        from nz_name [OF this] show "b (cp + 1 + i) \<noteq> 0" by (simp add: add.assoc)
      qed
      show "b (cp + 1 + (L - 1)) = 0" using b0 Lpos by simp
      show "1 + (L - 1) < remain" using rem Lpos by simp
    qed
    then show ?thesis using Lpos by simp
  qed
  have s2: "scan b remain (cp + L + 1) (L + 1) = (cp + L + 1 + M, L + 1 + M)"
  proof (rule scan_string)
    show "\<forall>i<M. b (cp + L + 1 + i) \<noteq> 0" using nz_val by blast
    show "b (cp + L + 1 + M) = 0" by (rule b1)
    show "L + 1 + M < remain" using rem by simp
  qed
  have nm: "bytes_of b cp L = name"
    using bn by (simp add: list_eq_iff_nth_eq L_def)
  have vl: "bytes_of b (cp + L + 1) M = val"
    using bv by (simp add: list_eq_iff_nth_eq M_def)
  have tail: "bytes_of b (cp + (L + M + 2)) (length (serialized vs) + 1) = serialized vs @ [0]"
  proof -
    have "\<And>i. i < length (serialized vs) + 1 \<Longrightarrow>
       b (cp + (L + M + 2) + i) = (serialized vs @ [0]) ! i"
    proof -
      fix i assume i: "i < length (serialized vs) + 1"
      have "b (cp + (L + M + 2 + i)) = (e @ serialized vs @ [0]) ! (L + M + 2 + i)"
        using reg [of "L + M + 2 + i"] le i by simp
      also have "\<dots> = (serialized vs @ [0]) ! i"
        using le by (metis nth_append_length_plus)
      finally show "b (cp + (L + M + 2) + i) = (serialized vs @ [0]) ! i"
        by (simp add: add.assoc)
    qed
    then show ?thesis by (simp add: list_eq_iff_nth_eq)
  qed
  have ih: "parse_loop b (cp + (L + M + 2)) (remain - (L + M + 2)) (acc @ [(name, val)])
       (vsize + (L + M + 2)) =
     ((acc @ [(name, val)]) @ vs, vsize + (L + M + 2) + length (serialized vs))"
    by (rule Cons.IH [OF wf(4) _ tail]) (use rem in simp)
  have c0: "b cp \<noteq> 0" using nz_name [of 0] Lpos by simp
  have "parse_loop b cp remain acc vsize =
      parse_loop b (cp + (L + M + 2)) (remain - (L + M + 2)) (acc @ [(name, val)])
       (vsize + (L + M + 2))"
    using c0 rem s1 s2 nm vl
    by (subst parse_loop.simps) (simp add: add.assoc)
  moreover have "length (serialized (x # vs)) = L + M + 2 + length (serialized vs)"
    by (simp add: ser le)
  ultimately show ?case using ih by (simp add: x [symmetric] add.assoc)
qed

subsection \<open>Packing and parsing, at the level of the context\<close>

lemma pack_vars_succeeds:
  assumes "idx = 0 \<or> idx = 1" "length (serialized (vars ctx)) + 2 \<le> VARSPACE_SIZE"
  shows "fst (pack_vars ctx idx) = OK"
proof (cases "vars ctx = []")
  case True
  with assms(1) show ?thesis by (auto simp: pack_vars_def)
next
  case False
  have "fst (pack_loop (vars ctx) (infobuf ctx (nat idx)) DEVINFO_HDR_SIZE (VARSPACE_SIZE - 1)) = OK"
    by (rule pack_loop_succeeds) (use assms(2) in simp)
  with False assms(1) show ?thesis by (auto simp: pack_vars_def split: prod.splits)
qed

subsection \<open>Setting variables\<close>

lemma long_value_facts:
  "length long_value = 524257" "long_value \<noteq> []" "list_all isprint long_value"
proof -
  show l: "length long_value = 524257" by (simp add: long_value_def size_defs)
  then show "long_value \<noteq> []" by auto
  show "list_all isprint long_value"
    by (simp add: long_value_def list_all_iff isprint_def)
qed

subsection \<open>The slot that a successful update leaves\<close>

lemma slot_valid_cong:
  assumes "\<And>k. k < INFOBUF_SIZE \<Longrightarrow> b k = b' k"
  shows "slot_valid b = slot_valid b'"
proof -
  have m: "bytes_of b OFF_MAGIC DEVICE_MAGIC_SIZE = bytes_of b' OFF_MAGIC DEVICE_MAGIC_SIZE"
    by (rule bytes_of_cong) (simp add: assms off_defs DEVICE_MAGIC_SIZE_def size_defs)
  have v: "get16 b OFF_VERSION = get16 b' OFF_VERSION"
    by (rule get16_cong) (simp_all add: assms off_defs size_defs)
  have e: "get16 b OFF_EXT_SECTORS = get16 b' OFF_EXT_SECTORS"
    by (rule get16_cong) (simp_all add: assms off_defs size_defs)
  have x: "bytes_of b DEVINFO_BLOCK_SIZE (EXTENSION_SIZE - 4) =
           bytes_of b' DEVINFO_BLOCK_SIZE (EXTENSION_SIZE - 4)"
    by (rule bytes_of_cong) (simp add: assms size_defs)
  have c: "get32 b (INFOBUF_SIZE - 4) = get32 b' (INFOBUF_SIZE - 4)"
    by (rule get32_cong) (simp_all add: assms size_defs)
  show ?thesis unfolding slot_valid_def m v e x c ..
qed

lemma store_crcs_tail:
  "crc32 0 (bytes_of (store_crcs b) DEVINFO_BLOCK_SIZE (EXTENSION_SIZE - 4)) =
     get32 (store_crcs b) (INFOBUF_SIZE - 4)"
proof -
  define b1 where "b1 = put32 b OFF_CRCSUM (crc32 0 (bytes_of b 0 DEVINFO_BLOCK_SIZE))"
  have s: "store_crcs b = put32 b1 (INFOBUF_SIZE - 4)
           (crc32 0 (bytes_of b1 DEVINFO_BLOCK_SIZE (EXTENSION_SIZE - 4)))"
    by (simp add: store_crcs_def Let_def b1_def)
  have "bytes_of (store_crcs b) DEVINFO_BLOCK_SIZE (EXTENSION_SIZE - 4) =
        bytes_of b1 DEVINFO_BLOCK_SIZE (EXTENSION_SIZE - 4)"
    unfolding s by (rule bytes_of_cong) (simp add: put32_outside size_defs)
  then show ?thesis unfolding s by (simp add: get32_put32)
qed

lemma header_written_valid:
  assumes "header_written cur b"
    and "crc32 0 (bytes_of b DEVINFO_BLOCK_SIZE (EXTENSION_SIZE - 4)) = get32 b (INFOBUF_SIZE - 4)"
  shows "slot_valid b"
  using assms
  by (simp add: slot_valid_def header_written_def DEVINFO_VERSION_CURRENT_def
      EXTENSION_SECTOR_COUNT_def)


lemma bootinfo_update_OK:
  assumes up: "bootinfo_update (Some ctx) s = (OK, c, s')"
  shows "\<exists>B. c = Some (ctx\<lparr>infobuf := (infobuf ctx)(nat (update_index ctx) := B)\<rparr>) \<and>
           header_written (curinfo ctx) B \<and> slot_valid B \<and>
           write_slot s (nat (update_index ctx)) B = (True, s') \<and>
           (wellformed_vars (vars ctx) \<longrightarrow>
              parse_loop B DEVINFO_HDR_SIZE VARSPACE_SIZE [] 0 =
                (vars ctx, length (serialized (vars ctx))))"
proof -
  have ro: "\<not> readonly ctx" using up by (auto simp: bootinfo_update_def)
  define D where "D = nat (update_index ctx)"
  define b0 where "b0 = init_header (curinfo ctx) (infobuf ctx D)"
  define ctx1 where "ctx1 = ctx\<lparr>infobuf := (infobuf ctx)(D := b0)\<rparr>"
  obtain r1 ctx2 where pv: "pack_vars ctx1 (update_index ctx) = (r1, ctx2)"
    by (cases "pack_vars ctx1 (update_index ctx)")
  have r1: "r1 = OK" using up ro pv
    by (cases r1) (auto simp: bootinfo_update_def Let_def ctx1_def D_def b0_def)
  have idx: "update_index ctx = 0 \<or> update_index ctx = 1" by (auto simp: update_index_def)
  from pack_vars_frame [OF pv] obtain b where "ctx2 = ctx1\<lparr>infobuf := (infobuf ctx1)(D := b)\<rparr>"
    unfolding D_def by blast
  then have c2: "ctx2 = ctx\<lparr>infobuf := (infobuf ctx)(D := b)\<rparr>"
    by (simp add: ctx1_def)
  have b_def: "b = infobuf ctx2 D" by (simp add: c2)
  define B where "B = store_crcs b"
  obtain w s1 where ws: "write_slot s D B = (w, s1)" by (cases "write_slot s D B")
  from up ro pv r1 ws c2
  have res: "c = Some (ctx\<lparr>infobuf := (infobuf ctx)(D := B)\<rparr>)" "s' = s1" "w"
    by (auto simp: bootinfo_update_def Let_def ctx1_def D_def B_def b0_def split: bool.splits)
  from bootinfo_update_Some [OF ro up] obtain B' where
    B': "c = Some (ctx\<lparr>infobuf := (infobuf ctx)(D := B')\<rparr>)" "header_written (curinfo ctx) B'"
    unfolding D_def [symmetric] by blast
  from B'(1) res(1) have "infobuf (ctx\<lparr>infobuf := (infobuf ctx)(D := B')\<rparr>) D =
      infobuf (ctx\<lparr>infobuf := (infobuf ctx)(D := B)\<rparr>) D" by simp
  then have "B' = B" by simp
  with B'(2) have hw: "header_written (curinfo ctx) B" by simp
  have sv: "slot_valid B"
    using hw store_crcs_tail [of b] unfolding B_def by (rule header_written_valid)
  have pz: "parse_loop B DEVINFO_HDR_SIZE VARSPACE_SIZE [] 0 =
                (vars ctx, length (serialized (vars ctx)))" if wf: "wellformed_vars (vars ctx)"
  proof (cases "vars ctx = []")
    case True
    with pv idx have "ctx2 = ctx1" by (auto simp: pack_vars_def ctx1_def)
    then have "b = b0" by (simp add: b_def ctx1_def)
    then have "B DEVINFO_HDR_SIZE = 0"
      by (simp add: B_def store_crcs_outside b0_def init_header_apply size_defs)
    with True show ?thesis by (simp add: parse_loop.simps)
  next
    case False
    obtain r' b' where pl: "pack_loop (vars ctx) b0 DEVINFO_HDR_SIZE (VARSPACE_SIZE - 1) = (r', b')"
      by (cases "pack_loop (vars ctx) b0 DEVINFO_HDR_SIZE (VARSPACE_SIZE - 1)")
    with pv False idx r1 have r': "r' = OK" and bb: "b = b'"
      by (auto simp: pack_vars_def ctx1_def b_def D_def)
    from pack_loop_serialized [OF pl [unfolded r']] bb have
      p: "length (serialized (vars ctx)) < VARSPACE_SIZE - 1"
         "bytes_of b DEVINFO_HDR_SIZE (length (serialized (vars ctx)) + 1) = serialized (vars ctx) @ [0]"
      by simp_all
    have "bytes_of B DEVINFO_HDR_SIZE (length (serialized (vars ctx)) + 1) =
          bytes_of b DEVINFO_HDR_SIZE (length (serialized (vars ctx)) + 1)"
      unfolding B_def
      by (rule bytes_of_cong) (rule store_crcs_outside, use p(1) in \<open>simp add: size_defs\<close>)
    with p(2) have reg: "bytes_of B DEVINFO_HDR_SIZE (length (serialized (vars ctx)) + 1) =
        serialized (vars ctx) @ [0]" by simp
    have "parse_loop B DEVINFO_HDR_SIZE VARSPACE_SIZE [] 0 =
       ([] @ vars ctx, 0 + length (serialized (vars ctx)))"
      by (rule parse_loop_serialized [OF wf _ reg]) (use p(1) in simp)
    then show ?thesis by simp
  qed
  from res ws hw sv pz show ?thesis unfolding D_def [symmetric]
    by (intro exI [of _ B]) simp
qed

subsection \<open>Reading a slot back\<close>

lemma read_slot_full:
  assumes sc: "script s = []"
  shows "\<exists>b. read_slot i ctx s =
           (ctx\<lparr>infobuf := (infobuf ctx)(i := b),
                 valid := (valid ctx)(i := if slot_valid (slot_image (disk s) i) then 1
                                            else valid ctx i)\<rparr>, s) \<and>
           (\<forall>k<DEVINFO_BLOCK_SIZE. b k = slot_image (disk s) i k) \<and>
           (slot_valid (slot_image (disk s) i) \<longrightarrow>
              (\<forall>k<INFOBUF_SIZE. b k = slot_image (disk s) i k))"
proof -
  define img where "img = slot_image (disk s) i"
  define b1 where "b1 = blit (infobuf ctx i) 0 (disk s) (devinfo_offset i) DEVINFO_BLOCK_SIZE"
  define b2 where "b2 = blit b1 DEVINFO_BLOCK_SIZE (disk s) (extension_offset i) EXTENSION_SIZE"
  have rl1: "read_loop s (devinfo_offset i) (infobuf ctx i) 0 DEVINFO_BLOCK_SIZE 0 =
      (DEVINFO_BLOCK_SIZE, b1, s)"
    using read_loop_full [OF sc, of 0 DEVINFO_BLOCK_SIZE "devinfo_offset i" "infobuf ctx i" 0]
    by (simp add: b1_def DEVINFO_BLOCK_SIZE_def)
  have rl2: "read_loop s (extension_offset i) b1 DEVINFO_BLOCK_SIZE EXTENSION_SIZE 0 =
      (EXTENSION_SIZE, b2, s)"
    using read_loop_full [OF sc, of 0 EXTENSION_SIZE "extension_offset i" b1 DEVINFO_BLOCK_SIZE]
    by (simp add: b2_def size_defs)
  have i1: "\<And>k. k < DEVINFO_BLOCK_SIZE \<Longrightarrow> b1 k = img k"
    by (simp add: b1_def blit_def img_def slot_image_def)
  have i2: "\<And>k. k < INFOBUF_SIZE \<Longrightarrow> b2 k = img k"
    by (auto simp: b2_def b1_def blit_def img_def slot_image_def extension_offset_eq size_defs)
  have m: "bytes_of b1 OFF_MAGIC DEVICE_MAGIC_SIZE = bytes_of img OFF_MAGIC DEVICE_MAGIC_SIZE"
    by (rule bytes_of_cong) (simp add: i1 off_defs DEVICE_MAGIC_SIZE_def size_defs)
  have v: "get16 b1 OFF_VERSION = get16 img OFF_VERSION"
    by (rule get16_cong) (simp_all add: i1 off_defs size_defs)
  have e: "get16 b1 OFF_EXT_SECTORS = get16 img OFF_EXT_SECTORS"
    by (rule get16_cong) (simp_all add: i1 off_defs size_defs)
  have x: "bytes_of b2 DEVINFO_BLOCK_SIZE (EXTENSION_SIZE - 4) =
           bytes_of img DEVINFO_BLOCK_SIZE (EXTENSION_SIZE - 4)"
    by (rule bytes_of_cong) (simp add: i2 size_defs)
  have c: "get32 b2 (INFOBUF_SIZE - 4) = get32 img (INFOBUF_SIZE - 4)"
    by (rule get32_cong) (simp_all add: i2 size_defs)
  have hdr: "bytes_of img OFF_MAGIC DEVICE_MAGIC_SIZE = DEVICE_MAGIC \<and>
        get16 img OFF_VERSION \<ge> DEVINFO_VERSION_CURRENT \<and>
        get16 img OFF_EXT_SECTORS = of_nat EXTENSION_SECTOR_COUNT" if "slot_valid img"
    using that by (simp add: slot_valid_def)
  show ?thesis
  proof (cases "bytes_of img OFF_MAGIC DEVICE_MAGIC_SIZE = DEVICE_MAGIC \<and>
        get16 img OFF_VERSION \<ge> DEVINFO_VERSION_CURRENT \<and>
        get16 img OFF_EXT_SECTORS = of_nat EXTENSION_SECTOR_COUNT")
    case False
    then have nv: "\<not> slot_valid img" using hdr by blast
    from False have "read_slot i ctx s = (ctx\<lparr>infobuf := (infobuf ctx)(i := b1)\<rparr>, s)"
      by (auto simp: read_slot_def syscall_empty sc rl1 Let_def m v e)
    with nv i1 show ?thesis unfolding img_def [symmetric]
      by (intro exI [of _ b1]) simp
  next
    case True
    have sv: "slot_valid img \<longleftrightarrow>
       crc32 0 (bytes_of b2 DEVINFO_BLOCK_SIZE (EXTENSION_SIZE - 4)) = get32 b2 (INFOBUF_SIZE - 4)"
      using True by (simp add: slot_valid_def x c)
    from True have "read_slot i ctx s =
       (if slot_valid img
        then ctx\<lparr>infobuf := (infobuf ctx)(i := b2), valid := (valid ctx)(i := 1)\<rparr>
        else ctx\<lparr>infobuf := (infobuf ctx)(i := b2)\<rparr>, s)"
      by (simp add: read_slot_def syscall_empty sc rl1 rl2 Let_def m v e sv)
    with i2 show ?thesis unfolding img_def [symmetric]
      by (intro exI [of _ b2]) (simp add: size_defs)
  qed
qed

subsection \<open>Parsing depends on the variable area only\<close>

lemma scan_cong:
  "(\<And>k. p \<le> k \<Longrightarrow> k < p + (remain - vb) \<Longrightarrow> b k = b' k) \<Longrightarrow>
     scan b remain p vb = scan b' remain p vb"
proof (induction b remain p vb rule: scan.induct)
  case (1 b remain p vb)
  show ?case
  proof (cases "vb < remain")
    case False
    then show ?thesis by (simp add: scan.simps)
  next
    case True
    then have bp: "b p = b' p" using "1.prems" [of p] by simp
    show ?thesis
    proof (cases "b p = 0")
      case True
      with bp show ?thesis by (simp add: scan.simps)
    next
      case False
      have "scan b remain (p + 1) (vb + 1) = scan b' remain (p + 1) (vb + 1)"
      proof (rule "1.IH")
        show "vb < remain \<and> b p \<noteq> 0" using True False by simp
        fix k assume "p + 1 \<le> k" "k < p + 1 + (remain - (vb + 1))"
        then show "b k = b' k" using "1.prems" [of k] True by simp
      qed
      then show ?thesis using True False bp
        by (subst scan.simps, subst (2) scan.simps) simp
    qed
  qed
qed

lemma scan_bounds:
  "scan b remain p vb = (p', vb') \<Longrightarrow> vb \<le> vb' \<and> p' = p + (vb' - vb) \<and> (vb \<le> remain \<longrightarrow> vb' \<le> remain)"
proof (induction b remain p vb rule: scan.induct)
  case (1 b remain p vb)
  show ?case
  proof (cases "vb < remain \<and> b p \<noteq> 0")
    case False
    with "1.prems" show ?thesis by (subst (asm) scan.simps) auto
  next
    case True
    with "1.prems" have "scan b remain (p + 1) (vb + 1) = (p', vb')"
      by (subst (asm) scan.simps) simp
    from "1.IH" [OF True this] True show ?thesis by auto
  qed
qed

lemma parse_loop_cong:
  "(\<And>k. cp \<le> k \<Longrightarrow> k < cp + remain \<Longrightarrow> b k = b' k) \<Longrightarrow>
     parse_loop b cp remain acc vsize = parse_loop b' cp remain acc vsize"
proof (induction b cp remain acc vsize rule: parse_loop.induct)
  case (1 b cp remain vs vsize)
  note eq = "1.prems"
  show ?case
  proof (cases "remain > 0")
    case False
    then show ?thesis by (simp add: parse_loop.simps)
  next
    case rpos: True
    then have bcp: "b cp = b' cp" using eq [of cp] by simp
    show ?thesis
    proof (cases "b cp = 0")
      case True
      with bcp show ?thesis by (simp add: parse_loop.simps)
    next
      case nz: False
      obtain endp vb1 where s1: "scan b remain (cp + 1) 1 = (endp, vb1)"
        by (cases "scan b remain (cp + 1) 1")
      have s1': "scan b' remain (cp + 1) 1 = (endp, vb1)"
        using scan_cong [of "cp + 1" remain 1 b b'] eq s1 by simp
      from scan_bounds [OF s1] rpos have e1: "endp = cp + vb1" "1 \<le> vb1" by auto
      show ?thesis
      proof (cases "vb1 \<ge> remain")
        case True
        with rpos nz bcp s1 s1' show ?thesis
          by (subst parse_loop.simps, subst (2) parse_loop.simps) simp
      next
        case v1: False
        obtain valp vb2 where s2: "scan b remain (endp + 1) (vb1 + 1) = (valp, vb2)"
          by (cases "scan b remain (endp + 1) (vb1 + 1)")
        have s2': "scan b' remain (endp + 1) (vb1 + 1) = (valp, vb2)"
        proof -
          have "scan b remain (endp + 1) (vb1 + 1) = scan b' remain (endp + 1) (vb1 + 1)"
            by (rule scan_cong) (rule eq, use e1 v1 in simp_all)
          with s2 show ?thesis by simp
        qed
        from scan_bounds [OF s2] v1 have e2: "valp = endp + 1 + (vb2 - (vb1 + 1))" "vb1 + 1 \<le> vb2"
          by auto
        show ?thesis
        proof (cases "vb2 \<ge> remain")
          case True
          with rpos nz bcp s1 s1' v1 s2 s2' show ?thesis
            by (subst parse_loop.simps, subst (2) parse_loop.simps) simp
        next
          case v2: False
          have n: "bytes_of b cp (endp - cp) = bytes_of b' cp (endp - cp)"
            by (rule bytes_of_cong) (rule eq, use e1 v1 in simp_all)
          have v: "bytes_of b (endp + 1) (valp - (endp + 1)) = bytes_of b' (endp + 1) (valp - (endp + 1))"
            by (rule bytes_of_cong) (rule eq, use e1 e2 v1 v2 in simp_all)
          have ih: "parse_loop b (cp + (vb2 + 1)) (remain - (vb2 + 1))
                 (vs @ [(bytes_of b cp (endp - cp), bytes_of b (endp + 1) (valp - (endp + 1)))])
                 (vsize + (vb2 + 1)) =
               parse_loop b' (cp + (vb2 + 1)) (remain - (vb2 + 1))
                 (vs @ [(bytes_of b cp (endp - cp), bytes_of b (endp + 1) (valp - (endp + 1)))])
                 (vsize + (vb2 + 1))"
          proof (rule "1.IH" [OF _ s1 [symmetric] _ s2 [symmetric]])
            show "0 < remain \<and> b cp \<noteq> 0" using rpos nz by simp
            show "\<not> remain \<le> vb1" using v1 by simp
            show "\<not> remain \<le> vb2" using v2 by simp
            fix k assume "cp + (vb2 + 1) \<le> k" "k < cp + (vb2 + 1) + (remain - (vb2 + 1))"
            then show "b k = b' k" using eq [of k] v2 by simp
          qed
          show ?thesis
            using rpos nz bcp s1 s1' v1 s2 s2' v2 n v ih
            by (subst parse_loop.simps, subst (2) parse_loop.simps) simp
        qed
      qed
    qed
  qed
qed

lemma info_of_cong:
  "(\<And>k. k < DEVINFO_HDR_SIZE \<Longrightarrow> b k = b' k) \<Longrightarrow> info_of b = info_of b'"
proof -
  assume a: "\<And>k. k < DEVINFO_HDR_SIZE \<Longrightarrow> b k = b' k"
  have m: "bytes_of b OFF_MAGIC DEVICE_MAGIC_SIZE = bytes_of b' OFF_MAGIC DEVICE_MAGIC_SIZE"
    by (rule bytes_of_cong) (simp add: a off_defs DEVICE_MAGIC_SIZE_def size_defs)
  have v: "get16 b OFF_VERSION = get16 b' OFF_VERSION"
    by (rule get16_cong) (simp_all add: a off_defs size_defs)
  have e: "get16 b OFF_EXT_SECTORS = get16 b' OFF_EXT_SECTORS"
    by (rule get16_cong) (simp_all add: a off_defs size_defs)
  have c: "get32 b OFF_CRCSUM = get32 b' OFF_CRCSUM"
    by (rule get32_cong) (simp_all add: a off_defs size_defs)
  show ?thesis
    unfolding info_of_def m v e c by (simp add: a off_defs size_defs)
qed

subsection \<open>Opening a store when no system call fails\<close>

lemma find_bootinfo_full:
  assumes sc: "script s = []"
  shows "\<exists>ctx s'. find_bootinfo ro dev s =
        (if slot_valid (slot_image (disk s) 0) \<or> slot_valid (slot_image (disk s) 1)
         then OK else ERR EUNSET, Some ctx, s') \<and>
     disk s' = disk s \<and> script s' = [] \<and> wlog s' = wlog s \<and>
     lock s' = (if ro then Shared else Exclusive) \<and>
     lockfd ctx = 4 \<and> fd ctx = 5 \<and> readonly ctx = ro \<and> devinfo_dev ctx = dev \<and>
     current ctx = spec_select (slot_valid (slot_image (disk s) 0))
                     (slot_valid (slot_image (disk s) 1))
                     (slot_image (disk s) 0 OFF_SERNUM) (slot_image (disk s) 1 OFF_SERNUM) \<and>
     (0 \<le> current ctx \<longrightarrow>
        curinfo ctx = info_of (slot_image (disk s) (nat (current ctx))) \<and>
        (vars ctx, varsize ctx) =
          parse_loop (slot_image (disk s) (nat (current ctx))) DEVINFO_HDR_SIZE VARSPACE_SIZE [] 0) \<and>
     (current ctx < 0 \<longrightarrow> vars ctx = [] \<and> curinfo ctx = zero_info)"
proof -
  define V0 where "V0 = slot_valid (slot_image (disk s) 0)"
  define V1 where "V1 = slot_valid (slot_image (disk s) 1)"
  define s8 where "s8 = (if \<not> ro then snd (set_bootdev_writeable_status dev True (s\<lparr>lock := Exclusive\<rparr>))
                         else s\<lparr>lock := Shared\<rparr>)"
  have s8: "script s8 = []" "disk s8 = disk s" "wlog s8 = wlog s"
    "lock s8 = (if ro then Shared else Exclusive)"
    by (simp_all add: s8_def sc)
  define c0 where "c0 = calloc_context\<lparr>readonly := ro, devinfo_dev := dev, lockfd := 4, fd := 5\<rparr>"
  from read_slot_full [OF s8(1), of 0 c0] obtain b0 where
    r0: "read_slot 0 c0 s8 =
           (c0\<lparr>infobuf := (infobuf c0)(0 := b0),
                valid := (valid c0)(0 := if V0 then 1 else valid c0 0)\<rparr>, s8)"
    and b0h: "\<forall>k<DEVINFO_BLOCK_SIZE. b0 k = slot_image (disk s) 0 k"
    and b0v: "V0 \<longrightarrow> (\<forall>k<INFOBUF_SIZE. b0 k = slot_image (disk s) 0 k)"
    unfolding s8(2) V0_def by blast
  define c1 where "c1 = c0\<lparr>infobuf := (infobuf c0)(0 := b0),
                valid := (valid c0)(0 := if V0 then 1 else valid c0 0)\<rparr>"
  from read_slot_full [OF s8(1), of 1 c1] obtain b1 where
    r1: "read_slot 1 c1 s8 =
           (c1\<lparr>infobuf := (infobuf c1)(1 := b1),
                valid := (valid c1)(1 := if V1 then 1 else valid c1 1)\<rparr>, s8)"
    and b1h: "\<forall>k<DEVINFO_BLOCK_SIZE. b1 k = slot_image (disk s) 1 k"
    and b1v: "V1 \<longrightarrow> (\<forall>k<INFOBUF_SIZE. b1 k = slot_image (disk s) 1 k)"
    unfolding s8(2) V1_def by blast
  define c2 where "c2 = c1\<lparr>infobuf := (infobuf c1)(1 := b1),
                valid := (valid c1)(1 := if V1 then 1 else valid c1 1)\<rparr>"
  have val: "valid c2 0 \<noteq> 0 \<longleftrightarrow> V0" "valid c2 1 \<noteq> 0 \<longleftrightarrow> V1"
    by (simp_all add: c2_def c1_def c0_def calloc_context_def)
  have buf: "infobuf c2 0 = b0" "infobuf c2 1 = b1"
    by (simp_all add: c2_def c1_def)
  have fields: "lockfd c2 = 4" "fd c2 = 5" "readonly c2 = ro" "devinfo_dev c2 = dev" "vars c2 = []"
    by (simp_all add: c2_def c1_def c0_def calloc_context_def)
  have ser: "b0 OFF_SERNUM = slot_image (disk s) 0 OFF_SERNUM"
     "b1 OFF_SERNUM = slot_image (disk s) 1 OFF_SERNUM"
    using b0h b1h by (simp_all add: off_defs size_defs)
  have cc: "choose_current c2 = spec_select V0 V1
       (slot_image (disk s) 0 OFF_SERNUM) (slot_image (disk s) 1 OFF_SERNUM)"
    unfolding choose_current_spec val buf ser ..
  have unf: "find_bootinfo ro dev s =
       (if \<not> (valid c2 0 \<noteq> 0 \<or> valid c2 1 \<noteq> 0) then
          (ERR EUNSET, Some (c2\<lparr>current := -1, curinfo := zero_info\<rparr>), s8)
        else
          (let ctx3 = c2\<lparr>current := choose_current c2\<rparr>;
               ctx4 = ctx3\<lparr>curinfo := info_of (infobuf ctx3 (nat (current ctx3)))\<rparr>
           in case parse_vars ctx4 of
                (OK, ctx5) \<Rightarrow> (OK, Some ctx5, s8)
              | (ERR e, ctx5) \<Rightarrow>
                  (OK, Some (ctx5\<lparr>readonly := True\<rparr>),
                   if \<not> readonly ctx5
                   then snd (set_bootdev_writeable_status (devinfo_dev ctx5) False s8)
                   else s8)))"
  proof (cases ro)
    case True
    show ?thesis
      using r0 r1 True unfolding c2_def c1_def c0_def s8_def
      by (simp add: find_bootinfo_def syscall_empty sc Let_def del: One_nat_def)
  next
    case False
    show ?thesis
      using r0 r1 False unfolding c2_def c1_def c0_def s8_def
      by (simp add: find_bootinfo_def syscall_empty sc Let_def del: One_nat_def)
  qed
  show ?thesis
  proof (cases "V0 \<or> V1")
    case False
    then have "find_bootinfo ro dev s =
        (ERR EUNSET, Some (c2\<lparr>current := -1, curinfo := zero_info\<rparr>), s8)"
      unfolding unf using val by simp
    moreover have "spec_select V0 V1
       (slot_image (disk s) 0 OFF_SERNUM) (slot_image (disk s) 1 OFF_SERNUM) = -1"
      using False by (simp add: spec_select_def)
    ultimately show ?thesis using False s8 fields unfolding V0_def [symmetric] V1_def [symmetric]
      by (intro exI [of _ "c2\<lparr>current := -1, curinfo := zero_info\<rparr>"] exI [of _ s8]) simp
  next
    case True
    define cur where "cur = choose_current c2"
    have cur01: "cur = 0 \<or> cur = 1" and curv: "cur = 0 \<longrightarrow> V0" "cur = 1 \<longrightarrow> V1"
      using True unfolding cur_def cc by (auto simp: spec_select_def)
    define B where "B = infobuf c2 (nat cur)"
    have Bimg: "B k = slot_image (disk s) (nat cur) k" if k: "k < INFOBUF_SIZE" for k
    proof (cases "cur = 0")
      case True
      then have "nat cur = 0" by simp
      with True curv b0v k show ?thesis unfolding B_def by (simp add: buf)
    next
      case False
      with cur01 have c1: "cur = 1" by simp
      then have n: "nat cur = 1" by simp
      from c1 curv b1v k show ?thesis unfolding B_def n buf by simp
    qed
    obtain vs n where pl: "parse_loop B DEVINFO_HDR_SIZE VARSPACE_SIZE [] 0 = (vs, n)"
      by (cases "parse_loop B DEVINFO_HDR_SIZE VARSPACE_SIZE [] 0")
    have "parse_loop B DEVINFO_HDR_SIZE VARSPACE_SIZE [] 0 =
        parse_loop (slot_image (disk s) (nat cur)) DEVINFO_HDR_SIZE VARSPACE_SIZE [] 0"
      by (rule parse_loop_cong) (rule Bimg, simp add: size_defs)
    with pl have pimg: "parse_loop (slot_image (disk s) (nat cur)) DEVINFO_HDR_SIZE VARSPACE_SIZE [] 0
        = (vs, n)" by simp
    have ci: "info_of B = info_of (slot_image (disk s) (nat cur))"
      by (rule info_of_cong) (rule Bimg, simp add: size_defs)
    define c5 where "c5 = c2\<lparr>current := cur, curinfo := info_of B, vars := vs, varsize := n\<rparr>"
    have pv: "parse_vars (c2\<lparr>current := cur, curinfo := info_of B\<rparr>) = (OK, c5)"
      using cur01 pl by (auto simp: parse_vars_def B_def c5_def)
    have "find_bootinfo ro dev s = (OK, Some c5, s8)"
      unfolding unf using True val pv
      by (simp add: Let_def cur_def [symmetric] B_def [symmetric])
    moreover have "current c5 = spec_select V0 V1
       (slot_image (disk s) 0 OFF_SERNUM) (slot_image (disk s) 1 OFF_SERNUM)"
      using cc by (simp add: c5_def cur_def)
    moreover have "curinfo c5 = info_of (slot_image (disk s) (nat (current c5)))"
      "(vars c5, varsize c5) =
          parse_loop (slot_image (disk s) (nat (current c5))) DEVINFO_HDR_SIZE VARSPACE_SIZE [] 0"
      "\<not> current c5 < 0"
      using ci pimg cur01 by (auto simp: c5_def)
    moreover have "lockfd c5 = 4" "fd c5 = 5" "readonly c5 = ro" "devinfo_dev c5 = dev"
      using fields by (simp_all add: c5_def)
    ultimately show ?thesis using True s8 unfolding V0_def [symmetric] V1_def [symmetric]
      by (intro exI [of _ c5] exI [of _ s8]) simp
  qed
qed

subsection \<open>The environment across the system calls\<close>

lemma write_loop_empty_script:
  assumes "script s = []" "0 < sz"
  shows "write_loop s off src soff sz 0 =
     (sz, s\<lparr>disk := blit (disk s) off src soff sz, wlog := wlog s @ [(off, sz, lock s)]\<rparr>)"
proof -
  have dw: "dev_write s off src soff sz =
      (int sz, s\<lparr>disk := blit (disk s) off src soff sz, wlog := wlog s @ [(off, sz, lock s)]\<rparr>)"
    using assms(1) by (simp add: dev_write_def syscall_def)
  have "write_loop s off src soff sz 0 =
     write_loop (s\<lparr>disk := blit (disk s) off src soff sz, wlog := wlog s @ [(off, sz, lock s)]\<rparr>)
       off src soff sz sz"
    using assms(2) by (subst write_loop.simps) (simp add: dw)
  then show ?thesis by (simp add: write_loop.simps)
qed

lemma write_slot_empty_script:
  assumes "script s = []"
  shows "write_slot s i b =
     (True, s\<lparr>disk := blit (blit (disk s) (devinfo_offset i) b 0 DEVINFO_BLOCK_SIZE)
                         (extension_offset i) b DEVINFO_BLOCK_SIZE EXTENSION_SIZE,
              wlog := wlog s @ [(devinfo_offset i, DEVINFO_BLOCK_SIZE, lock s),
                                (extension_offset i, EXTENSION_SIZE, lock s)]\<rparr>)"
  using assms
  by (simp add: write_slot_def syscall_empty write_loop_empty_script size_defs)


lemma dev_read_env:
  "dev_read s pos dst doff len = (cnt, b, s1) \<Longrightarrow>
     disk s1 = disk s \<and> wlog s1 = wlog s \<and> lock s1 = lock s \<and> force_ro s1 = force_ro s"
  by (auto simp: dev_read_def syscall_def split: list.splits if_splits)

lemma read_loop_env:
  "read_loop s off dst doff sz n = (m, b, s') \<Longrightarrow>
     disk s' = disk s \<and> wlog s' = wlog s \<and> lock s' = lock s \<and> force_ro s' = force_ro s"
proof (induction s off dst doff sz n rule: read_loop.induct)
  case (1 s off dst doff sz n)
  show ?case
  proof (cases "n < sz")
    case False
    with "1.prems" show ?thesis by (simp add: read_loop.simps)
  next
    case True
    obtain cnt dst1 s1 where dr: "dev_read s (off + n) dst (doff + n) (sz - n) = (cnt, dst1, s1)"
      by (cases "dev_read s (off + n) dst (doff + n) (sz - n)")
    note e = dev_read_env [OF dr]
    show ?thesis
    proof (cases "cnt < 0")
      case True
      with "1.prems" \<open>n < sz\<close> dr have "s' = s1" by (simp add: read_loop.simps)
      with e show ?thesis by simp
    next
      case False
      with "1.prems" \<open>n < sz\<close> dr have "read_loop s1 off dst1 doff sz (n + nat cnt) = (m, b, s')"
        by (simp add: read_loop.simps)
      from "1.IH" [OF \<open>n < sz\<close> dr [symmetric] refl False this] e show ?thesis by simp
    qed
  qed
qed

lemma read_slot_env:
  assumes "read_slot i ctx s = (ctx', s')"
  shows "disk s' = disk s \<and> wlog s' = wlog s \<and> lock s' = lock s \<and> force_ro s' = force_ro s"
proof -
  obtain r1 s1 where c1: "syscall 0 s = (r1, s1)" by (cases "syscall 0 s")
  note e1 = syscall_env [OF c1]
  obtain n1 b1 s2 where l1: "read_loop s1 (devinfo_offset i) (infobuf ctx i) 0 DEVINFO_BLOCK_SIZE 0 = (n1, b1, s2)"
    by (cases "read_loop s1 (devinfo_offset i) (infobuf ctx i) 0 DEVINFO_BLOCK_SIZE 0")
  note e2 = read_loop_env [OF l1]
  obtain r2 s3 where c2: "syscall 0 s2 = (r2, s3)" by (cases "syscall 0 s2")
  note e3 = syscall_env [OF c2]
  obtain n2 b2 s4 where l2: "read_loop s3 (extension_offset i) b1 DEVINFO_BLOCK_SIZE EXTENSION_SIZE 0 = (n2, b2, s4)"
    by (cases "read_loop s3 (extension_offset i) b1 DEVINFO_BLOCK_SIZE EXTENSION_SIZE 0")
  note e4 = read_loop_env [OF l2]
  from assms c1 l1 c2 l2 have "s' = s1 \<or> s' = s2 \<or> s' = s3 \<or> s' = s4"
    by (auto simp: read_slot_def Let_def split: if_splits)
  with e1 e2 e3 e4 show ?thesis by auto
qed


lemma find_bootinfo_env:
  assumes "find_bootinfo ro dev s = (r, c, s')"
  shows "disk s' = disk s \<and> wlog s' = wlog s \<and>
     (case c of
        Some ctx \<Rightarrow> lock s' = (if ro then Shared else Exclusive)
      | None \<Rightarrow> lock s' = lock s \<or> lock s' = Unlocked)"
  using assms unfolding find_bootinfo_def Let_def
  by (auto split: prod.splits option.splits if_splits ret.splits
      dest!: syscall_env read_slot_env)

subsection \<open>The lock and the write log across a re-initialization\<close>

lemma init_slots_env:
  assumes "init_slots s = (w, s')"
  shows "lock s' = lock s \<and> (\<exists>l. wlog s' = wlog s @ l \<and> (\<forall>e\<in>set l. snd (snd e) = lock s))"
proof -
  obtain w1 s1 where a: "write_slot s 0 zero_buffer = (w1, s1)"
    by (cases "write_slot s 0 zero_buffer")
  from write_slot_env [OF a] obtain l1 where
    l1: "lock s1 = lock s" "wlog s1 = wlog s @ l1" "\<forall>e\<in>set l1. snd (snd e) = lock s" by blast
  show ?thesis
  proof (cases w1)
    case False
    with assms a have "s' = s1" by (simp add: init_slots_def)
    with l1 show ?thesis by blast
  next
    case True
    with assms a have b: "write_slot s1 1 zero_buffer = (w, s')" by (simp add: init_slots_def)
    from write_slot_env [OF b] obtain l2 where
      l2: "lock s' = lock s1" "wlog s' = wlog s1 @ l2" "\<forall>e\<in>set l2. snd (snd e) = lock s1" by blast
    have "wlog s' = wlog s @ (l1 @ l2)" using l1 l2 by simp
    moreover have "\<forall>e\<in>set (l1 @ l2). snd (snd e) = lock s" using l1 l2 by auto
    ultimately show ?thesis using l1(1) l2(1) by (intro conjI exI [of _ "l1 @ l2"]) simp_all
  qed
qed

lemma bootinfo_update_env:
  assumes "bootinfo_update c s = (r, c', s')"
  shows "lock s' = lock s \<and> (\<exists>l. wlog s' = wlog s @ l \<and> (\<forall>e\<in>set l. snd (snd e) = lock s))"
proof (cases c)
  case None
  with assms show ?thesis by (simp add: bootinfo_update_def)
next
  case (Some ctx)
  show ?thesis
  proof (cases "readonly ctx")
    case True
    with assms Some show ?thesis by (simp add: bootinfo_update_def)
  next
    case False
    from bootinfo_update_Some [OF False assms [unfolded Some]] obtain B where
      "if r = OK then write_slot s (nat (update_index ctx)) B = (True, s')
       else s' = s \<or> write_slot s (nat (update_index ctx)) B = (False, s')" by blast
    then consider "s' = s" | w where "write_slot s (nat (update_index ctx)) B = (w, s')"
      by (auto split: if_splits)
    then show ?thesis
    proof cases
      case 1
      then show ?thesis by simp
    next
      case 2
      from write_slot_env [OF 2] show ?thesis by blast
    qed
  qed
qed

lemma find_bootinfo_lockfd:
  assumes "find_bootinfo ro dev s = (r, Some ctx, s')"
  shows "0 \<le> lockfd ctx"
proof -
  have *: "lockfd c5 = lockfd c4" if "parse_vars c4 = (r5, c5)" for c4 r5 c5
    using parse_vars_frame [OF that] by auto
  have **: "lockfd c2 = lockfd c1" if "read_slot i c1 s1 = (c2, s2)" for i c1 s1 c2 s2
    using that by (auto simp: read_slot_def Let_def split: prod.splits if_splits)
  show ?thesis
    using assms unfolding find_bootinfo_def Let_def
    by (auto split: prod.splits option.splits if_splits ret.splits dest!: * **)
qed

subsection \<open>The re-initialization path of bootinfo\_open\<close>

lemma find_storage_dev_env:
  "find_storage_dev s = (d, s1) \<Longrightarrow>
     disk s1 = disk s \<and> wlog s1 = wlog s \<and> lock s1 = lock s \<and> force_ro s1 = force_ro s"
  by (auto simp: find_storage_dev_def split: prod.splits if_splits dest!: syscall_env)

lemma close_bootinfo_keeplock:
  "close_bootinfo (Some ctx) True s = (lfd, s') \<Longrightarrow>
     lfd = lockfd ctx \<and> disk s' = disk s \<and> wlog s' = wlog s \<and> lock s' = lock s \<and>
     script s' = script s"
  by (auto simp: close_bootinfo_def Let_def split: if_splits)

text \<open>The re-initialization path of \<^verbatim>\<open>bootinfo_open\<close>, from the result of \<^verbatim>\<open>find_bootinfo\<close> on.\<close>

lemma bootinfo_open_reinit:
  assumes wr: "flgs AND BOOTINFO_O_RDONLY = 0"
    and dev: "find_storage_dev s0 = (Some dev, s1)"
    and fb: "find_bootinfo False dev s1 = (r, ctxo, s2)"
    and re: "r \<noteq> OK \<or> ctxo = None \<or> flgs AND BOOTINFO_O_FORCE_INIT \<noteq> 0"
    and cl: "(case ctxo of None \<Rightarrow> (-1, s2) | Some ctx \<Rightarrow> close_bootinfo ctxo True s2) = (lfd, s3)"
    and sb: "set_bootdev_writeable_status dev True s3 = (rb, s4)"
    and od: "syscall 5 s4 = (dfd, s5)"
    and ini: "init_slots s5 = (w, s6)"
  shows "bootinfo_open flgs s0 =
     (if dfd < 0 then error_depart EUNSET lfd rb dev s5
      else if \<not> w then error_depart EIO lfd rb dev s6
      else bootinfo_update
             (Some (calloc_context\<lparr>fd := dfd, lockfd := lfd, current := -1,
                vars := (case ctxo of None \<Rightarrow> [] | Some ctx \<Rightarrow> filter underscore_var (vars ctx))\<rparr>))
             s6)"
  using assms
  by (auto simp: bootinfo_open_def Let_def split: option.splits bool.splits)


lemma bootinfo_update_succeeds_fit:
  assumes ro: "\<not> readonly ctx"
    and fit: "length (serialized (vars ctx)) + 2 \<le> VARSPACE_SIZE"
    and sc: "script s = []"
  shows "fst (bootinfo_update (Some ctx) s) = OK \<and>
         script (snd (snd (bootinfo_update (Some ctx) s))) = []"
proof -
  define D where "D = nat (update_index ctx)"
  define ctx1 where "ctx1 = ctx\<lparr>infobuf := (infobuf ctx)(D := init_header (curinfo ctx) (infobuf ctx D))\<rparr>"
  have idx: "update_index ctx = 0 \<or> update_index ctx = 1" by (auto simp: update_index_def)
  have "fst (pack_vars ctx1 (update_index ctx)) = OK"
    by (rule pack_vars_succeeds [OF idx]) (use fit in \<open>simp add: ctx1_def\<close>)
  then obtain ctx2 where pv: "pack_vars ctx1 (update_index ctx) = (OK, ctx2)"
    by (cases "pack_vars ctx1 (update_index ctx)") auto
  define B where "B = store_crcs (infobuf ctx2 D)"
  obtain w s1 where ws: "write_slot s D B = (w, s1)" by (cases "write_slot s D B")
  from write_slot_full [OF sc, of D B] ws have w: "w" "script s1 = []" by simp_all
  from ro pv ws w show ?thesis
    by (simp add: bootinfo_update_def Let_def ctx1_def [symmetric] D_def [symmetric]
        B_def [symmetric])
qed

lemma bootinfo_open_reinit_succeeds:
  assumes sc: "script s0 = []"
    and wr: "flgs AND BOOTINFO_O_RDONLY = 0"
    and fb: "find_bootinfo False BOOTINFO_STORAGE_DEVICE s0 = (r, Some ctx0, s2)"
    and sc2: "script s2 = []"
    and re: "r \<noteq> OK \<or> flgs AND BOOTINFO_O_FORCE_INIT \<noteq> 0"
    and fit: "length (serialized (filter underscore_var (vars ctx0))) + 2 \<le> VARSPACE_SIZE"
  shows "fst (bootinfo_open flgs s0) = OK \<and> script (snd (snd (bootinfo_open flgs s0))) = []"
proof -
  have dev: "find_storage_dev s0 = (Some BOOTINFO_STORAGE_DEVICE, s0)"
    by (simp add: find_storage_dev_def syscall_empty sc)
  obtain lfd s3 where cl: "close_bootinfo (Some ctx0) True s2 = (lfd, s3)"
    by (cases "close_bootinfo (Some ctx0) True s2")
  from close_bootinfo_keeplock [OF cl] sc2 have s3: "script s3 = []" by simp
  obtain rb s4 where sb: "set_bootdev_writeable_status BOOTINFO_STORAGE_DEVICE True s3 = (rb, s4)"
    by (cases "set_bootdev_writeable_status BOOTINFO_STORAGE_DEVICE True s3")
  from set_bootdev_env [OF sb] s3 have s4: "script s4 = []" by simp
  have od: "syscall 5 s4 = (5, s4)" by (simp add: syscall_empty s4)
  obtain w s6 where ini: "init_slots s4 = (w, s6)" by (cases "init_slots s4")
  obtain w1 sa where wa: "write_slot s4 0 zero_buffer = (w1, sa)"
    by (cases "write_slot s4 0 zero_buffer")
  from write_slot_full [OF s4, of 0 zero_buffer] wa have w1: "w1" "script sa = []" by simp_all
  from write_slot_full [OF w1(2), of 1 zero_buffer] ini wa w1(1) have w: "w" "script s6 = []"
    by (simp_all add: init_slots_def)
  define fresh where "fresh = calloc_context\<lparr>fd := 5, lockfd := lfd, current := -1,
                vars := filter underscore_var (vars ctx0)\<rparr>"
  have cl': "(case Some ctx0 of None \<Rightarrow> (-1, s2) | Some ctx \<Rightarrow> close_bootinfo (Some ctx0) True s2) = (lfd, s3)"
    using cl by simp
  have re': "r \<noteq> OK \<or> Some ctx0 = None \<or> flgs AND BOOTINFO_O_FORCE_INIT \<noteq> 0" using re by blast
  from bootinfo_open_reinit [OF wr dev fb re' cl' sb od ini] w
  have "bootinfo_open flgs s0 = bootinfo_update (Some fresh) s6"
    by (simp add: fresh_def)
  moreover have "fst (bootinfo_update (Some fresh) s6) = OK \<and>
         script (snd (snd (bootinfo_update (Some fresh) s6))) = []"
    by (rule bootinfo_update_succeeds_fit [OF _ _ w(2)])
      (use fit in \<open>simp_all add: fresh_def calloc_context_def\<close>)
  ultimately show ?thesis by simp
qed

subsection \<open>A slot on the device after an update\<close>

lemma header_written_fields:
  "header_written cur b \<Longrightarrow> b OFF_SERNUM = sernum cur + 1 \<and> b OFF_FLAGS = flags cur \<and>
     b OFF_FAILED_BOOTS = failed_boots cur"
proof -
  assume h: "header_written cur b"
  then have "unat (b OFF_SERNUM) = unat (sernum cur + 1)"
    by (simp add: header_written_def unat_word_ariths)
  then have "b OFF_SERNUM = sernum cur + 1" by (simp add: word_unat_eq_iff)
  with h show ?thesis by (simp add: header_written_def)
qed

lemma slot_after_update:
  assumes up: "bootinfo_update (Some ctx) s = (OK, c, s')"
  defines "D \<equiv> nat (update_index ctx)"
  shows "slot_valid (slot_image (disk s') D) \<and>
     header_written (curinfo ctx) (slot_image (disk s') D) \<and>
     (wellformed_vars (vars ctx) \<longrightarrow>
        parse_loop (slot_image (disk s') D) DEVINFO_HDR_SIZE VARSPACE_SIZE [] 0 =
          (vars ctx, length (serialized (vars ctx)))) \<and>
     (\<forall>a. a < devinfo_offset D \<or> devinfo_offset D + INFOBUF_SIZE \<le> a \<longrightarrow> disk s' a = disk s a)"
proof -
  from bootinfo_update_OK [OF up] obtain B where
    B: "header_written (curinfo ctx) B" "slot_valid B" "write_slot s D B = (True, s')"
      "wellformed_vars (vars ctx) \<longrightarrow>
         parse_loop B DEVINFO_HDR_SIZE VARSPACE_SIZE [] 0 = (vars ctx, length (serialized (vars ctx)))"
    unfolding D_def by blast
  have img: "\<And>k. k < INFOBUF_SIZE \<Longrightarrow> slot_image (disk s') D k = B k"
    using write_slot_inside [OF B(3)] by (simp add: slot_image_def)
  have 1: "slot_valid (slot_image (disk s') D) = slot_valid B"
    by (rule slot_valid_cong) (rule img)
  have 2: "header_written (curinfo ctx) (slot_image (disk s') D) = header_written (curinfo ctx) B"
    by (rule header_written_cong) (rule img, auto simp: size_defs)
  have 3: "parse_loop (slot_image (disk s') D) DEVINFO_HDR_SIZE VARSPACE_SIZE [] 0 =
      parse_loop B DEVINFO_HDR_SIZE VARSPACE_SIZE [] 0"
    by (rule parse_loop_cong) (rule img, simp add: size_defs)
  have 4: "\<forall>a. a < devinfo_offset D \<or> devinfo_offset D + INFOBUF_SIZE \<le> a \<longrightarrow> disk s' a = disk s a"
    using write_slot_outside [OF B(3)] by blast
  from B 1 2 3 4 show ?thesis by simp
qed

lemma slots_disjoint:
  "k < INFOBUF_SIZE \<Longrightarrow>
     devinfo_offset 0 + k < devinfo_offset 1 \<and> devinfo_offset 0 + INFOBUF_SIZE \<le> devinfo_offset 1 + k"
  by (simp add: devinfo_offset_def BOOTINFO_STORAGE_OFFSET_B_def INFOBUF_SIZE_def)

lemma spec_select_successor:
  "spec_select True True x (x + 1) = 1" "spec_select True True (x + 1) x = 0"
proof -
  have u: "x \<noteq> 255 \<Longrightarrow> unat (x + 1) = unat x + 1"
  proof -
    assume "x \<noteq> 255"
    have "unat x \<noteq> 255"
    proof
      assume "unat x = 255"
      then have "(of_nat (unat x) :: byte) = of_nat 255" by simp
      then have "x = 255" by simp
      with \<open>x \<noteq> 255\<close> show False by simp
    qed
    moreover have "unat x < 256" using unsigned_less [of x, where ?'a = nat] by simp
    ultimately show ?thesis by (simp add: unat_word_ariths)
  qed
  show "spec_select True True x (x + 1) = 1"
  proof (cases "x = 255")
    case True
    then show ?thesis by (simp add: spec_select_def)
  next
    case False
    with u have "unat x < unat (x + 1)" by simp
    moreover from u False have "x + 1 \<noteq> 255 \<or> x \<noteq> 0" by auto
    ultimately show ?thesis using False by (auto simp: spec_select_def)
  qed
  show "spec_select True True (x + 1) x = 0"
  proof (cases "x = 255")
    case True
    then show ?thesis by (simp add: spec_select_def)
  next
    case False
    with u have "\<not> unat (x + 1) < unat x" by simp
    moreover have "\<not> (x + 1 = 255 \<and> x = 0)" by auto
    ultimately show ?thesis by (auto simp: spec_select_def)
  qed
qed

lemma lookup_var_filter:
  "lookup_var name (filter underscore_var vs) =
     (if underscore_var (name, []) then lookup_var name vs else None)"
proof (induction vs)
  case Nil
  then show ?case by simp
next
  case (Cons a vs)
  obtain n v where a: "a = (n, v)" by (cases a)
  have u: "underscore_var (n, v) = underscore_var (n, [])" by (simp add: underscore_var_def)
  show ?case
  proof (cases "name = n")
    case True
    with Cons a u show ?thesis by simp
  next
    case False
    with Cons a show ?thesis by simp
  qed
qed


lemma slot_valid_first_byte: "slot_valid b \<Longrightarrow> b 0 = 0x42"
  by (rule magic_first_byte) (simp add: slot_valid_def)

lemma info_of_fields:
  "flags (info_of b) = b OFF_FLAGS" "failed_boots (info_of b) = b OFF_FAILED_BOOTS"
  "sernum (info_of b) = b OFF_SERNUM"
  by (simp_all add: info_of_def)

section \<open>The claims\<close>

text \<open>
  Claim C1. A successful \<^verbatim>\<open>bootinfo_update\<close> on a context whose current slot is 0, 1
  or none writes only the other slot (slot 0 when there is none): every byte of the
  device outside the destination slot keeps its value, so the previously current slot is
  byte for byte what it was; and the destination slot on the device then carries the
  magic, version 4, the extension sector count 1023, the flags and the failed-boot count
  of the in-memory header, and the serial number (current serial + 1) mod 256.
\<close>

theorem bootinfo_update_writes_other_slot:
  assumes cur: "current ctx \<in> {-1, 0, 1}"
    and up: "bootinfo_update (Some ctx) s = (OK, c, s')"
  shows "header_written (curinfo ctx) (slot_image (disk s') (spec_destination (current ctx))) \<and>
     (\<forall>a. a < devinfo_offset (spec_destination (current ctx)) \<or>
          devinfo_offset (spec_destination (current ctx)) + INFOBUF_SIZE \<le> a \<longrightarrow>
          disk s' a = disk s a) \<and>
     (current ctx \<noteq> -1 \<longrightarrow>
        (\<forall>k<INFOBUF_SIZE. slot_image (disk s') (nat (current ctx)) k =
                           slot_image (disk s) (nat (current ctx)) k))"
proof -
  define D where "D = spec_destination (current ctx)"
  have D: "nat (update_index ctx) = D"
    using cur by (auto simp: D_def update_index_def spec_destination_def)
  have ro: "\<not> readonly ctx" using up by (auto simp: bootinfo_update_def)
  from bootinfo_update_Some [OF ro up] obtain B where
    B: "header_written (curinfo ctx) B" "write_slot s D B = (True, s')"
    unfolding D by auto
  have img: "\<And>k. k < 20 \<Longrightarrow> slot_image (disk s') D k = B k"
    using write_slot_inside [OF B(2)] by (simp add: slot_image_def size_defs)
  have "header_written (curinfo ctx) (slot_image (disk s') D) = header_written (curinfo ctx) B"
    by (rule header_written_cong) (use img in auto)
  then have 1: "header_written (curinfo ctx) (slot_image (disk s') D)" using B(1) by simp
  have 2: "\<forall>a. a < devinfo_offset D \<or> devinfo_offset D + INFOBUF_SIZE \<le> a \<longrightarrow> disk s' a = disk s a"
    using write_slot_outside [OF B(2)] by blast
  have 3: "current ctx \<noteq> -1 \<longrightarrow>
        (\<forall>k<INFOBUF_SIZE. slot_image (disk s') (nat (current ctx)) k =
                           slot_image (disk s) (nat (current ctx)) k)"
  proof (intro impI allI)
    fix k assume c: "current ctx \<noteq> -1" and k: "k < INFOBUF_SIZE"
    from c cur consider "current ctx = 0" | "current ctx = 1" by auto
    then show "slot_image (disk s') (nat (current ctx)) k = slot_image (disk s) (nat (current ctx)) k"
    proof cases
      case 1
      then have "D = 1" by (simp add: D_def spec_destination_def)
      with 2 k 1 show ?thesis
        by (simp add: slot_image_def devinfo_offset_def BOOTINFO_STORAGE_OFFSET_B_def INFOBUF_SIZE_def)
    next
      case 2
      then have "D = 0" by (simp add: D_def spec_destination_def)
      with \<open>\<forall>a. _\<close> k 2 show ?thesis
        by (simp add: slot_image_def devinfo_offset_def BOOTINFO_STORAGE_OFFSET_B_def INFOBUF_SIZE_def)
    qed
  qed
  from 1 2 3 show ?thesis unfolding D_def by blast
qed

theorem bootinfo_update_writes_other_slot_witness:
  "fst (bootinfo_update (Some slot0_context) blank_sys) = OK \<and>
   header_written (curinfo slot0_context)
     (slot_image (disk (snd (snd (bootinfo_update (Some slot0_context) blank_sys)))) 1) \<and>
   slot_image (disk (snd (snd (bootinfo_update (Some slot0_context) blank_sys)))) 0 7 =
     slot_image (disk blank_sys) 0 7"
proof -
  have ok: "fst (bootinfo_update (Some slot0_context) blank_sys) = OK"
    by (rule bootinfo_update_succeeds)
      (simp_all add: slot0_context_def calloc_context_def blank_sys_def)
  have cur: "current slot0_context \<in> {-1, 0, 1}"
    by (simp add: slot0_context_def calloc_context_def)
  have eq: "bootinfo_update (Some slot0_context) blank_sys =
      (OK, fst (snd (bootinfo_update (Some slot0_context) blank_sys)),
       snd (snd (bootinfo_update (Some slot0_context) blank_sys)))"
    using ok by (metis prod.collapse)
  from bootinfo_update_writes_other_slot [OF cur eq] ok
  show ?thesis
    by (simp add: slot0_context_def calloc_context_def spec_destination_def size_defs)
qed

text \<open>
  Claim C10. A call of \<^verbatim>\<open>bootinfo_update\<close>, whatever it returns, leaves the session
  state of the context as it was: the current slot, the in-memory header (serial number,
  flags, failed boots), \<^verbatim>\<open>varsize\<close> and the list of variables, and every other field
  but the buffer of the destination slot. So a second update in the same session has the
  same destination slot and puts the same serial number in its header.
\<close>

theorem bootinfo_update_keeps_session_state:
  assumes up: "bootinfo_update (Some ctx) s = (r, c, s')"
  shows "\<exists>ctx'. c = Some ctx' \<and>
     current ctx' = current ctx \<and> curinfo ctx' = curinfo ctx \<and>
     varsize ctx' = varsize ctx \<and> vars ctx' = vars ctx \<and>
     readonly ctx' = readonly ctx \<and> valid ctx' = valid ctx \<and>
     fd ctx' = fd ctx \<and> lockfd ctx' = lockfd ctx \<and> devinfo_dev ctx' = devinfo_dev ctx \<and>
     (\<forall>i. i \<noteq> nat (update_index ctx) \<longrightarrow> infobuf ctx' i = infobuf ctx i) \<and>
     update_index ctx' = update_index ctx \<and>
     (\<not> readonly ctx \<longrightarrow>
        unat (infobuf ctx' (nat (update_index ctx)) OFF_SERNUM) =
          (unat (sernum (curinfo ctx)) + 1) mod 256) \<and>
     (\<forall>s2 r2 c2 s2'. bootinfo_update c s2 = (r2, c2, s2') \<longrightarrow>
        (\<exists>ctx''. c2 = Some ctx'' \<and> curinfo ctx'' = curinfo ctx \<and>
           update_index ctx'' = update_index ctx \<and>
           (\<not> readonly ctx \<longrightarrow>
              infobuf ctx'' (nat (update_index ctx)) OFF_SERNUM =
              infobuf ctx' (nat (update_index ctx)) OFF_SERNUM)))"
proof -
  define D where "D = nat (update_index ctx)"
  from bootinfo_update_context [OF up] obtain B where
    B: "c = Some (ctx\<lparr>infobuf := (infobuf ctx)(D := B)\<rparr>)"
       "\<not> readonly ctx \<longrightarrow> header_written (curinfo ctx) B"
    unfolding D_def by blast
  define ctx' where "ctx' = ctx\<lparr>infobuf := (infobuf ctx)(D := B)\<rparr>"
  have ui: "update_index ctx' = update_index ctx" by (simp add: ctx'_def update_index_def)
  have ser: "\<not> readonly ctx \<longrightarrow> unat (infobuf ctx' D OFF_SERNUM) = (unat (sernum (curinfo ctx)) + 1) mod 256"
    using B(2) by (simp add: ctx'_def header_written_def)
  have again: "\<exists>ctx''. c2 = Some ctx'' \<and> curinfo ctx'' = curinfo ctx \<and>
           update_index ctx'' = update_index ctx \<and>
           (\<not> readonly ctx \<longrightarrow> infobuf ctx'' D OFF_SERNUM = infobuf ctx' D OFF_SERNUM)"
    if "bootinfo_update c s2 = (r2, c2, s2')" for s2 r2 c2 s2'
  proof -
    from that B(1) have up2: "bootinfo_update (Some ctx') s2 = (r2, c2, s2')" by (simp add: ctx'_def)
    from bootinfo_update_context [OF up2] obtain B2 where
      B2: "c2 = Some (ctx'\<lparr>infobuf := (infobuf ctx')(D := B2)\<rparr>)"
       "\<not> readonly ctx' \<longrightarrow> header_written (curinfo ctx') B2"
      unfolding ui D_def by blast
    have "\<not> readonly ctx \<longrightarrow> unat (B2 OFF_SERNUM) = unat (B OFF_SERNUM)"
      using B(2) B2(2) by (simp add: ctx'_def header_written_def)
    then have "\<not> readonly ctx \<longrightarrow> B2 OFF_SERNUM = B OFF_SERNUM" by (simp add: word_unat_eq_iff)
    with B2(1) show ?thesis by (simp add: ctx'_def update_index_def)
  qed
  show ?thesis
    apply (rule exI [of _ ctx'])
    using B(1) ui ser again unfolding D_def [symmetric]
    apply (simp add: ctx'_def)
    done
qed

theorem bootinfo_update_keeps_session_state_witness:
  "map_option current (fst (snd (bootinfo_update (Some saturated_context) (blank_sys\<lparr>script := [-1]\<rparr>)))) = Some 0 \<and>
   map_option curinfo (fst (snd (bootinfo_update (Some saturated_context) (blank_sys\<lparr>script := [-1]\<rparr>))))
      = Some (curinfo saturated_context) \<and>
   fst (bootinfo_update (Some saturated_context) (blank_sys\<lparr>script := [-1]\<rparr>)) = ERR EUNSET"
proof -
  have eq: "bootinfo_update (Some saturated_context) (blank_sys\<lparr>script := [-1]\<rparr>) =
      (fst (bootinfo_update (Some saturated_context) (blank_sys\<lparr>script := [-1]\<rparr>)),
       fst (snd (bootinfo_update (Some saturated_context) (blank_sys\<lparr>script := [-1]\<rparr>))),
       snd (snd (bootinfo_update (Some saturated_context) (blank_sys\<lparr>script := [-1]\<rparr>))))"
    by simp
  have err: "fst (bootinfo_update (Some saturated_context) (blank_sys\<lparr>script := [-1]\<rparr>)) = ERR EUNSET"
    by (simp add: bootinfo_update_def Let_def saturated_context_def slot0_context_def
        calloc_context_def pack_vars_def update_index_def write_slot_def syscall_def blank_sys_def)
  from bootinfo_update_keeps_session_state [OF eq] err
  show ?thesis
    by (auto simp: saturated_context_def slot0_context_def calloc_context_def)
qed

text \<open>
  Claim C3, as amended. On a writable context \<^verbatim>\<open>bootinfo_mark_in_progress\<close> takes the
  boot state (0, n) to (1, n) and (1, n) to (1, (n + 1) mod 256): the count is an 8-bit
  field that the code increments without a bound, so it wraps from 255 to 0. The call
  hands back the count after the step. \<^verbatim>\<open>bootinfo_mark_successful\<close> takes every state
  to (0, 0) and hands back the count before it was cleared. So after \<open>k \<ge> 1\<close> calls of
  \<^verbatim>\<open>bootinfo_mark_in_progress\<close> in a row from a state (0, n), a boot is in progress and the
  count is (n + k - 1) mod 256.
\<close>

theorem boot_state_transitions:
  assumes ro: "\<not> readonly ctx"
  shows
    "(\<forall>s r cnt c s'. bootinfo_mark_in_progress (Some ctx) s = (r, cnt, c, s') \<longrightarrow>
        bootinfo_is_in_progress c = Inr 1 \<and>
        bootinfo_failed_boot_count c =
          Inr (if bootinfo_is_in_progress (Some ctx) = Inr 0
               then uint (failed_boots (curinfo ctx))
               else (uint (failed_boots (curinfo ctx)) + 1) mod 256) \<and>
        Inr (the (map_option uint cnt)) = bootinfo_failed_boot_count c \<and> cnt \<noteq> None) \<and>
     (\<forall>s r cnt c s'. bootinfo_mark_successful (Some ctx) s = (r, cnt, c, s') \<longrightarrow>
        bootinfo_is_in_progress c = Inr 0 \<and>
        bootinfo_failed_boot_count c = Inr 0 \<and>
        map_option uint cnt = Some (uint (failed_boots (curinfo ctx)))) \<and>
     (\<forall>k s c s'. 1 \<le> k \<and> bootinfo_is_in_progress (Some ctx) = Inr 0 \<and>
          mark_in_progress_times k (Some ctx) s = (c, s') \<longrightarrow>
        bootinfo_is_in_progress c = Inr 1 \<and>
        bootinfo_failed_boot_count c =
          Inr ((uint (failed_boots (curinfo ctx)) + int k - 1) mod 256))"
proof (intro conjI allI impI)
  fix s r cnt c s'
  assume m: "bootinfo_mark_in_progress (Some ctx) s = (r, cnt, c, s')"
  from mark_in_progress_Some [OF ro m] obtain ctx' where
    c: "c = Some ctx'"
      "curinfo ctx' =
       (if flags (curinfo ctx) AND FLAG_BOOT_IN_PROGRESS \<noteq> 0
        then (curinfo ctx)\<lparr>failed_boots := failed_boots (curinfo ctx) + 1\<rparr>
        else (curinfo ctx)\<lparr>flags := flags (curinfo ctx) OR FLAG_BOOT_IN_PROGRESS\<rparr>)"
      "cnt = Some (ucast (failed_boots (curinfo ctx')))"
    by blast
  have nz: "FLAG_BOOT_IN_PROGRESS \<noteq> 0" by (simp add: FLAG_BOOT_IN_PROGRESS_def)
  show "bootinfo_is_in_progress c = Inr 1"
    using c(1,2) nz by (simp add: in_progress_iff flag_set_or)
  show "bootinfo_failed_boot_count c =
          Inr (if bootinfo_is_in_progress (Some ctx) = Inr 0
               then uint (failed_boots (curinfo ctx))
               else (uint (failed_boots (curinfo ctx)) + 1) mod 256)"
    using c(1,2) by (simp add: in_progress_iff bootinfo_failed_boot_count_def uint_word_ariths)
  show "Inr (the (map_option uint cnt)) = bootinfo_failed_boot_count c"
    using c(1,3) by (simp add: bootinfo_failed_boot_count_def uint_ucast_byte)
  show "cnt \<noteq> None" using c(3) by simp
next
  fix s r cnt c s'
  assume m: "bootinfo_mark_successful (Some ctx) s = (r, cnt, c, s')"
  from mark_successful_Some [OF ro m] obtain ctx' where
    c: "c = Some ctx'"
      "curinfo ctx' = (curinfo ctx)\<lparr>flags := flags (curinfo ctx) AND NOT FLAG_BOOT_IN_PROGRESS,
                                   failed_boots := 0\<rparr>"
      "cnt = Some (ucast (failed_boots (curinfo ctx)))"
    by blast
  show "bootinfo_is_in_progress c = Inr 0"
    using c(1,2) by (simp add: in_progress_iff flag_clear_and)
  show "bootinfo_failed_boot_count c = Inr 0"
    using c(1,2) by (simp add: bootinfo_failed_boot_count_def)
  show "map_option uint cnt = Some (uint (failed_boots (curinfo ctx)))"
    using c(3) by (simp add: uint_ucast_byte)
next
  fix k s c s'
  assume a: "1 \<le> k \<and> bootinfo_is_in_progress (Some ctx) = Inr 0 \<and>
          mark_in_progress_times k (Some ctx) s = (c, s')"
  then obtain j where k: "k = Suc j" by (cases k) auto
  obtain r cnt c1 s1 where m: "bootinfo_mark_in_progress (Some ctx) s = (r, cnt, c1, s1)"
    by (cases "bootinfo_mark_in_progress (Some ctx) s") auto
  from mark_in_progress_Some [OF ro m] a obtain ctx1 where
    c1: "c1 = Some ctx1" "\<not> readonly ctx1"
      "curinfo ctx1 = (curinfo ctx)\<lparr>flags := flags (curinfo ctx) OR FLAG_BOOT_IN_PROGRESS\<rparr>"
    by (auto simp: in_progress_iff)
  from a k m c1 have t: "mark_in_progress_times j (Some ctx1) s1 = (c, s')" by simp
  have f1: "flags (curinfo ctx1) AND FLAG_BOOT_IN_PROGRESS \<noteq> 0"
    using c1(3) by (simp add: FLAG_BOOT_IN_PROGRESS_def)
  from mark_in_progress_times_set [OF c1(2) f1 t] obtain ctx' where
    c: "c = Some ctx'" "flags (curinfo ctx') AND FLAG_BOOT_IN_PROGRESS \<noteq> 0"
       "failed_boots (curinfo ctx') = failed_boots (curinfo ctx1) + of_nat j"
    by blast
  show "bootinfo_is_in_progress c = Inr 1"
    using c(1,2) by (simp add: in_progress_iff)
  have "uint (word_of_nat j :: byte) = int j mod 256"
    by (simp add: uint_nat unat_of_nat zmod_int)
  then have "uint (failed_boots (curinfo ctx) + of_nat j) = (uint (failed_boots (curinfo ctx)) + int j) mod 256"
    by (simp add: uint_word_ariths mod_add_right_eq)
  then show "bootinfo_failed_boot_count c =
          Inr ((uint (failed_boots (curinfo ctx)) + int k - 1) mod 256)"
    using c(1,3) c1(3) k by (simp add: bootinfo_failed_boot_count_def)
qed

theorem boot_state_transitions_witness:
  "\<not> readonly saturated_context \<and>
   bootinfo_is_in_progress (Some saturated_context) = Inr 1 \<and>
   bootinfo_failed_boot_count
     (fst (snd (snd (bootinfo_mark_in_progress (Some saturated_context) blank_sys)))) =
     Inr ((255 + 1) mod 256) \<and>
   bootinfo_failed_boot_count
     (fst (snd (snd (bootinfo_mark_successful (Some saturated_context) blank_sys)))) = Inr 0 \<and>
   bootinfo_failed_boot_count
     (fst (mark_in_progress_times 3 (Some slot0_context) blank_sys)) = Inr 2"
proof -
  have ro: "\<not> readonly saturated_context" "\<not> readonly slot0_context"
    by (simp_all add: saturated_context_def slot0_context_def calloc_context_def)
  have ip: "bootinfo_is_in_progress (Some saturated_context) = Inr 1"
    "bootinfo_is_in_progress (Some slot0_context) = Inr 0"
    by (simp_all add: bootinfo_is_in_progress_def saturated_context_def slot0_context_def
        calloc_context_def zero_info_def FLAG_BOOT_IN_PROGRESS_def)
  have fb: "uint (failed_boots (curinfo saturated_context)) = 255"
    "uint (failed_boots (curinfo slot0_context)) = 0"
    by (simp_all add: saturated_context_def slot0_context_def calloc_context_def zero_info_def)
  have e1: "bootinfo_mark_in_progress (Some saturated_context) blank_sys =
     (fst (bootinfo_mark_in_progress (Some saturated_context) blank_sys),
      fst (snd (bootinfo_mark_in_progress (Some saturated_context) blank_sys)),
      fst (snd (snd (bootinfo_mark_in_progress (Some saturated_context) blank_sys))),
      snd (snd (snd (bootinfo_mark_in_progress (Some saturated_context) blank_sys))))"
    by simp
  have e2: "bootinfo_mark_successful (Some saturated_context) blank_sys =
     (fst (bootinfo_mark_successful (Some saturated_context) blank_sys),
      fst (snd (bootinfo_mark_successful (Some saturated_context) blank_sys)),
      fst (snd (snd (bootinfo_mark_successful (Some saturated_context) blank_sys))),
      snd (snd (snd (bootinfo_mark_successful (Some saturated_context) blank_sys))))"
    by simp
  have e3: "mark_in_progress_times 3 (Some slot0_context) blank_sys =
     (fst (mark_in_progress_times 3 (Some slot0_context) blank_sys),
      snd (mark_in_progress_times 3 (Some slot0_context) blank_sys))"
    by simp
  note t = boot_state_transitions [OF ro(1)]
  note u = boot_state_transitions [OF ro(2)]
  from t [THEN conjunct1, rule_format, OF e1] ip(1) fb(1) have 1: "bootinfo_failed_boot_count
     (fst (snd (snd (bootinfo_mark_in_progress (Some saturated_context) blank_sys)))) =
     Inr ((255 + 1) mod 256)"
    by simp
  from t [THEN conjunct2, THEN conjunct1, rule_format, OF e2] have 2: "bootinfo_failed_boot_count
     (fst (snd (snd (bootinfo_mark_successful (Some saturated_context) blank_sys)))) = Inr 0"
    by simp
  have "1 \<le> (3::nat) \<and> bootinfo_is_in_progress (Some slot0_context) = Inr 0 \<and>
     mark_in_progress_times 3 (Some slot0_context) blank_sys =
     (fst (mark_in_progress_times 3 (Some slot0_context) blank_sys),
      snd (mark_in_progress_times 3 (Some slot0_context) blank_sys))"
    using ip(2) by simp
  from u [THEN conjunct2, THEN conjunct2, rule_format, OF this] fb(2)
  have 3: "bootinfo_failed_boot_count
     (fst (mark_in_progress_times 3 (Some slot0_context) blank_sys)) = Inr 2"
    by simp
  from ro(1) ip(1) 1 2 3 show ?thesis by blast
qed

theorem mark_in_progress_saturation_counterexample:
  "bootinfo_is_in_progress (Some saturated_context) = Inr 1 \<and>
   bootinfo_failed_boot_count (Some saturated_context) = Inr 255 \<and>
   bootinfo_failed_boot_count
     (fst (snd (snd (bootinfo_mark_in_progress (Some saturated_context) blank_sys)))) = Inr 0 \<and>
   (0::int) \<noteq> min (255 + 1) 255"
proof -
  have ro: "\<not> readonly saturated_context"
    by (simp add: saturated_context_def slot0_context_def calloc_context_def)
  have e1: "bootinfo_mark_in_progress (Some saturated_context) blank_sys =
     (fst (bootinfo_mark_in_progress (Some saturated_context) blank_sys),
      fst (snd (bootinfo_mark_in_progress (Some saturated_context) blank_sys)),
      fst (snd (snd (bootinfo_mark_in_progress (Some saturated_context) blank_sys))),
      snd (snd (snd (bootinfo_mark_in_progress (Some saturated_context) blank_sys))))"
    by simp
  from mark_in_progress_Some [OF ro e1] obtain ctx' where
    c: "fst (snd (snd (bootinfo_mark_in_progress (Some saturated_context) blank_sys))) = Some ctx'"
     "curinfo ctx' =
       (if flags (curinfo saturated_context) AND FLAG_BOOT_IN_PROGRESS \<noteq> 0
        then (curinfo saturated_context)\<lparr>failed_boots := failed_boots (curinfo saturated_context) + 1\<rparr>
        else (curinfo saturated_context)\<lparr>flags := flags (curinfo saturated_context) OR FLAG_BOOT_IN_PROGRESS\<rparr>)"
    by blast
  have "failed_boots (curinfo ctx') = 0"
    unfolding c(2)
    by (simp add: saturated_context_def slot0_context_def calloc_context_def zero_info_def
        FLAG_BOOT_IN_PROGRESS_def)
  then have "bootinfo_failed_boot_count
     (fst (snd (snd (bootinfo_mark_in_progress (Some saturated_context) blank_sys)))) = Inr 0"
    by (simp add: c(1) bootinfo_failed_boot_count_def)
  moreover have "bootinfo_is_in_progress (Some saturated_context) = Inr 1"
    "bootinfo_failed_boot_count (Some saturated_context) = Inr 255"
    by (simp_all add: bootinfo_is_in_progress_def bootinfo_failed_boot_count_def
        saturated_context_def slot0_context_def calloc_context_def zero_info_def
        FLAG_BOOT_IN_PROGRESS_def)
  ultimately show ?thesis by simp
qed






text \<open>
  Claim C7, at a failing input. \<^verbatim>\<open>bootinfo_bootvar_set\<close> tests the new entry against
  \<^verbatim>\<open>ctx->varsize\<close>, which only \<^verbatim>\<open>parse_vars\<close> assigns: it is the size of the list as it was
  loaded, not of the list in memory. On a store opened with no variable a first set of a
  value of 524257 bytes is accepted, and a second set of another variable of the same
  size is accepted too, although the two entries are longer than the variable area; the
  update that follows fails in \<^verbatim>\<open>pack_vars\<close>. A value of \<^verbatim>\<open>MAX_VALUE_SIZE\<close> bytes, the
  maximum that the comment on that constant gives, is rejected.
\<close>

theorem bootvar_set_ignores_earlier_sets:
  "bootinfo_bootvar_set (Some slot0_context) (Some [0x61]) (Some long_value) =
     (OK, Some (slot0_context\<lparr>vars := [([0x61], long_value)]\<rparr>)) \<and>
   bootinfo_bootvar_set (Some (slot0_context\<lparr>vars := [([0x61], long_value)]\<rparr>))
       (Some [0x62]) (Some long_value) =
     (OK, Some (slot0_context\<lparr>vars := [([0x61], long_value), ([0x62], long_value)]\<rparr>)) \<and>
   VARSPACE_SIZE < length (serialized [([0x61], long_value), ([0x62], long_value)]) \<and>
   fst (bootinfo_update
          (Some (slot0_context\<lparr>vars := [([0x61], long_value), ([0x62], long_value)]\<rparr>))
          blank_sys) = ERR EUNSET \<and>
   length (long_value @ [0x78, 0x78, 0x78]) = MAX_VALUE_SIZE \<and>
   bootinfo_bootvar_set (Some slot0_context) (Some [0x61]) (Some (long_value @ [0x78, 0x78, 0x78])) =
     (ERR EMSGSIZE, Some slot0_context)"
proof -
  have v0: "vars slot0_context = []" "varsize slot0_context = 0" "\<not> readonly slot0_context"
    "current slot0_context = 0"
    by (simp_all add: slot0_context_def calloc_context_def)
  have 1: "bootinfo_bootvar_set (Some slot0_context) (Some [0x61]) (Some long_value) =
     (OK, Some (slot0_context\<lparr>vars := [([0x61], long_value)]\<rparr>))"
    by (simp add: bootinfo_bootvar_set_def v0 long_value_facts isalpha_def size_defs)
  have 2: "bootinfo_bootvar_set (Some (slot0_context\<lparr>vars := [([0x61], long_value)]\<rparr>))
       (Some [0x62]) (Some long_value) =
     (OK, Some (slot0_context\<lparr>vars := [([0x61], long_value), ([0x62], long_value)]\<rparr>))"
    by (simp add: bootinfo_bootvar_set_def v0 long_value_facts isalpha_def size_defs)
  have 3: "VARSPACE_SIZE < length (serialized [([0x61], long_value), ([0x62], long_value)])"
    by (simp add: serialized_def entry_bytes_def long_value_facts size_defs)
  have pl: "fst (pack_loop [([0x61], long_value), ([0x62], long_value)] b DEVINFO_HDR_SIZE
               (VARSPACE_SIZE - 1)) = ERR EUNSET" for b
    by (simp add: long_value_facts size_defs)
  define b0 where "b0 = init_header (curinfo slot0_context) (infobuf slot0_context 1)"
  obtain r b where p: "pack_loop [([0x61], long_value), ([0x62], long_value)] b0 DEVINFO_HDR_SIZE
               (VARSPACE_SIZE - 1) = (r, b)"
    by (cases "pack_loop [([0x61], long_value), ([0x62], long_value)] b0 DEVINFO_HDR_SIZE
               (VARSPACE_SIZE - 1)")
  with pl [of b0] have r: "r = ERR EUNSET" by simp
  have 4: "fst (bootinfo_update
          (Some (slot0_context\<lparr>vars := [([0x61], long_value), ([0x62], long_value)]\<rparr>))
          blank_sys) = ERR EUNSET"
    using p r
    by (simp add: bootinfo_update_def Let_def v0 update_index_def pack_vars_def b0_def
        del: pack_loop.simps)
  have 5: "length (long_value @ [0x78, 0x78, 0x78]) = MAX_VALUE_SIZE"
    by (simp add: long_value_facts size_defs)
  have 6: "bootinfo_bootvar_set (Some slot0_context) (Some [0x61])
       (Some (long_value @ [0x78, 0x78, 0x78])) = (ERR EMSGSIZE, Some slot0_context)"
    by (simp add: bootinfo_bootvar_set_def v0 long_value_facts isalpha_def isprint_def size_defs)
  from 1 2 3 4 5 6 show ?thesis by blast
qed









end
